theory Spec2Isabelle
  imports Main "HOL-Library.Word" "HOL-Library.Signed_Division" "HOL-Library.Multiset"
begin

unbundle bit_operations_syntax

section \<open>Data model (problema.h)\<close>

type_synonym byte_t = "8 word"
type_synonym unicode_t = "32 word"

definition PROBLEMA_KEY_SIZE :: nat where "PROBLEMA_KEY_SIZE = 32"
definition PROBLEMA_BLOCK_SIZE :: nat where "PROBLEMA_BLOCK_SIZE = 16"
definition PROBLEMA_NUM_ROTORS :: nat where "PROBLEMA_NUM_ROTORS = 8"
definition PROBLEMA_ROTOR_SIZE :: nat where "PROBLEMA_ROTOR_SIZE = 65536"
definition PROBLEMA_NUM_ROUNDS :: nat where "PROBLEMA_NUM_ROUNDS = 14"
definition PROBLEMA_SBOX_SIZE :: nat where "PROBLEMA_SBOX_SIZE = 256"

datatype problema_error =
  ERROR_NULL_POINTER | ERROR_INVALID_KEY | ERROR_NOT_INITIALIZED
  | ERROR_BUFFER_TOO_SMALL | ERROR_INVALID_UTF8

text \<open>
  The C arrays are lists; the array bounds of the declarations are the predicate
  \<open>ctx_alloc\<close> below.  \<open>position\<close>, \<open>notch_positions\<close> and \<open>num_notches\<close> are C
  \<open>int\<close>s: every value the program stores in them lies in \<open>[0, 65536]\<close>, so the 32-bit
  width never matters and they are unbounded integers here; \<open>%\<close> on them is the
  truncating \<open>smod\<close>.
\<close>

record ProblemaRotor =
  mapping :: "unicode_t list"
  position :: int
  notch_positions :: "int list"
  num_notches :: int

record ProblemaAES =
  sbox :: "byte_t list"
  inv_sbox :: "byte_t list"
  round_keys :: "byte_t list list"

text \<open>\<open>plugboard\<close> is the one array \<open>plugboard.mapping\<close> of the C struct.\<close>

record ProblemaContext =
  rotors :: "ProblemaRotor list"
  inverse_rotors :: "ProblemaRotor list"
  plugboard :: "unicode_t list"
  aes :: ProblemaAES
  key :: "byte_t list"
  feedback :: "byte_t list"
  initial_feedback :: "byte_t list"
  encrypt_mode :: bool
  initialized :: bool

section \<open>Rotor bank (rotate_rotors, apply_plugboard, apply_rotors_*)\<close>

text \<open>The inner loop of \<open>rotate_rotors\<close>: does the position equal one of the first
  \<open>num_notches\<close> notch positions?\<close>

definition at_notch :: "ProblemaRotor \<Rightarrow> bool" where
  "at_notch rot =
     (position rot \<in> set (take (nat (num_notches rot)) (notch_positions rot)))"

text \<open>One rotor advanced by a step, the inverse rotor's position copied from it.\<close>

definition advance_rotor :: "nat \<Rightarrow> ProblemaContext \<Rightarrow> ProblemaContext" where
  "advance_rotor r ctx =
     (let p = (position (rotors ctx ! r) + 1) smod 65536
      in ctx\<lparr>rotors := (rotors ctx)[r := (rotors ctx ! r)\<lparr>position := p\<rparr>],
              inverse_rotors :=
                (inverse_rotors ctx)[r := (inverse_rotors ctx ! r)\<lparr>position := p\<rparr>]\<rparr>)"

text \<open>The carry loop \<open>for (r = 0; r < PROBLEMA_NUM_ROTORS - 1; r++)\<close>, with its
  \<open>break\<close>; the list holds the values of \<open>r\<close> still to visit.\<close>

fun rotate_carry :: "nat list \<Rightarrow> ProblemaContext \<Rightarrow> ProblemaContext" where
  "rotate_carry [] ctx = ctx"
| "rotate_carry (r # rs) ctx =
     (if at_notch (rotors ctx ! r) then rotate_carry rs (advance_rotor (r + 1) ctx)
      else ctx)"

definition rotate_rotors :: "ProblemaContext \<Rightarrow> ProblemaContext" where
  "rotate_rotors ctx =
     rotate_carry [0..<PROBLEMA_NUM_ROTORS - 1] (advance_rotor 0 ctx)"

definition apply_plugboard :: "ProblemaContext \<Rightarrow> unicode_t \<Rightarrow> unicode_t" where
  "apply_plugboard ctx input =
     (if input < 65536 then plugboard ctx ! unat input else input)"

text \<open>One pass of the loop body of \<open>apply_rotors_forward\<close>; \<open>output + pos\<close> is
  unsigned 32-bit arithmetic, the \<open>int\<close> converted.\<close>

definition rotor_forward_step :: "ProblemaRotor \<Rightarrow> unicode_t \<Rightarrow> unicode_t" where
  "rotor_forward_step rot output =
     (let pos = position rot;
          output1 = mapping rot ! unat ((output + word_of_int pos) mod 65536)
      in (output1 + 65536 - word_of_int pos) mod 65536)"

definition rotor_backward_step :: "ProblemaRotor \<Rightarrow> unicode_t \<Rightarrow> unicode_t" where
  "rotor_backward_step rot output =
     (let pos = position rot;
          output1 = (output + word_of_int pos) mod 65536;
          output2 = mapping rot ! unat output1
      in (output2 + 65536 - word_of_int pos) mod 65536)"

definition apply_rotors_forward :: "ProblemaContext \<Rightarrow> unicode_t \<Rightarrow> unicode_t" where
  "apply_rotors_forward ctx input =
     (if input \<ge> 65536 then input
      else fold (\<lambda>r output. rotor_forward_step (rotors ctx ! r) output)
             [0..<PROBLEMA_NUM_ROTORS] input)"

definition apply_rotors_backward :: "ProblemaContext \<Rightarrow> unicode_t \<Rightarrow> unicode_t" where
  "apply_rotors_backward ctx input =
     (if input \<ge> 65536 then input
      else fold (\<lambda>r output. rotor_backward_step (inverse_rotors ctx ! r) output)
             (rev [0..<PROBLEMA_NUM_ROTORS]) input)"

section \<open>Character pipeline (problema_encrypt_char, problema_decrypt_char)\<close>

text \<open>The four bytes of a code point, most significant first, and back.\<close>

definition split_bytes :: "unicode_t \<Rightarrow> byte_t list" where
  "split_bytes x =
     [ucast (drop_bit 24 x AND 0xFF), ucast (drop_bit 16 x AND 0xFF),
      ucast (drop_bit 8 x AND 0xFF), ucast (x AND 0xFF)]"

definition join_bytes :: "byte_t list \<Rightarrow> unicode_t" where
  "join_bytes bs =
     push_bit 24 (ucast (bs ! 0)) OR push_bit 16 (ucast (bs ! 1))
       OR push_bit 8 (ucast (bs ! 2)) OR ucast (bs ! 3)"

text \<open>\<open>char_bytes[i] ^= ctx->feedback[i % PROBLEMA_BLOCK_SIZE]\<close> for \<open>i < 4\<close>.\<close>

definition xor_feedback :: "byte_t list \<Rightarrow> byte_t list \<Rightarrow> byte_t list" where
  "xor_feedback fb bs =
     map (\<lambda>i. bs ! i XOR fb ! (i mod PROBLEMA_BLOCK_SIZE)) [0..<4]"

text \<open>\<open>ctx->feedback[i % PROBLEMA_BLOCK_SIZE] = bytes[i]\<close> for \<open>i < 4\<close>.\<close>

definition store_feedback :: "byte_t list \<Rightarrow> byte_t list \<Rightarrow> byte_t list" where
  "store_feedback fb bs =
     fold (\<lambda>i f. f[i mod PROBLEMA_BLOCK_SIZE := bs ! i]) [0..<4] fb"

text \<open>The body of \<open>problema_encrypt_char\<close> after its guard.  The \<open>memcmp\<close>/\<open>memcpy\<close>
  pair on \<open>initial_feedback\<close> is kept as written.\<close>

definition encrypt_char_body :: "ProblemaContext \<Rightarrow> unicode_t \<Rightarrow> unicode_t \<times> ProblemaContext" where
  "encrypt_char_body ctx0 input =
     (let ctx1 = ctx0\<lparr>encrypt_mode := True\<rparr>;
          output1 = apply_plugboard ctx1 input;
          output2 = apply_rotors_forward ctx1 output1;
          ctx2 = rotate_rotors ctx1;
          output3 = apply_rotors_backward ctx2 output2;
          char_bytes = split_bytes output3;
          ctx3 = (if feedback ctx2 = initial_feedback ctx2
                  then ctx2\<lparr>initial_feedback := feedback ctx2\<rparr> else ctx2);
          char_bytes' = xor_feedback (feedback ctx3) char_bytes;
          output4 = join_bytes char_bytes';
          ctx4 = ctx3\<lparr>feedback := store_feedback (feedback ctx3) char_bytes'\<rparr>
      in (output4, ctx4))"

definition decrypt_char_body :: "ProblemaContext \<Rightarrow> unicode_t \<Rightarrow> unicode_t \<times> ProblemaContext" where
  "decrypt_char_body ctx0 input =
     (let ctx1 = ctx0\<lparr>encrypt_mode := False\<rparr>;
          input_bytes = split_bytes input;
          char_bytes = split_bytes input;
          char_bytes' = xor_feedback (feedback ctx1) char_bytes;
          output1 = join_bytes char_bytes';
          ctx2 = ctx1\<lparr>feedback := store_feedback (feedback ctx1) input_bytes\<rparr>;
          output2 = apply_rotors_backward ctx2 output1;
          ctx3 = rotate_rotors ctx2;
          output3 = apply_rotors_forward ctx3 output2;
          output4 = apply_plugboard ctx3 output3
      in (output4, ctx3))"

text \<open>A context pointer is \<open>None\<close> (NULL) or \<open>Some ctx\<close>.  The functions return the
  code point and the context as the call leaves it.\<close>

definition encrypt_char :: "ProblemaContext \<Rightarrow> unicode_t \<Rightarrow> unicode_t \<times> ProblemaContext" where
  "encrypt_char ctx input =
     (if \<not> initialized ctx then (input, ctx) else encrypt_char_body ctx input)"

definition decrypt_char :: "ProblemaContext \<Rightarrow> unicode_t \<Rightarrow> unicode_t \<times> ProblemaContext" where
  "decrypt_char ctx input =
     (if \<not> initialized ctx then (input, ctx) else decrypt_char_body ctx input)"

definition problema_encrypt_char ::
  "ProblemaContext option \<Rightarrow> unicode_t \<Rightarrow> unicode_t \<times> ProblemaContext option" where
  "problema_encrypt_char ctxp input =
     (case ctxp of
        None \<Rightarrow> (input, None)
      | Some ctx \<Rightarrow> (case encrypt_char ctx input of (out, ctx') \<Rightarrow> (out, Some ctx')))"

definition problema_decrypt_char ::
  "ProblemaContext option \<Rightarrow> unicode_t \<Rightarrow> unicode_t \<times> ProblemaContext option" where
  "problema_decrypt_char ctxp input =
     (case ctxp of
        None \<Rightarrow> (input, None)
      | Some ctx \<Rightarrow> (case decrypt_char ctx input of (out, ctx') \<Rightarrow> (out, Some ctx')))"

section \<open>Key schedule (problema_init, init_rotors, init_plugboard, init_aes_components)\<close>

text \<open>\<open>temp = m[i]; m[i] = m[j]; m[j] = temp\<close>.\<close>

definition swap_at :: "'a list \<Rightarrow> nat \<Rightarrow> nat \<Rightarrow> 'a list" where
  "swap_at m i j = (let temp = m ! i in (m[i := m ! j])[j := temp])"

text \<open>The Fisher-Yates loop \<open>for (i = n; i > 0; i--) swap(m[i], m[jf i])\<close> that
  \<open>init_rotors\<close> and \<open>init_aes_components\<close> both run, each with its own index \<open>jf\<close>.\<close>

fun shuffle_down :: "(nat \<Rightarrow> nat) \<Rightarrow> nat \<Rightarrow> 'a list \<Rightarrow> 'a list" where
  "shuffle_down jf 0 m = m"
| "shuffle_down jf (Suc i) m = shuffle_down jf i (swap_at m (Suc i) (jf (Suc i)))"

text \<open>\<open>for (i = 0; i < n; i++) m[i] = i\<close> on an array of \<open>n\<close> entries.\<close>

definition identity_table :: "nat \<Rightarrow> 'a::len word list" where
  "identity_table n = map of_nat [0..<n]"

text \<open>\<open>for (i = 0; i < n; i++) inv[m[i]] = i\<close>, on the inverse table as it was.\<close>

definition invert_table :: "nat \<Rightarrow> 'a::len word list \<Rightarrow> 'a word list \<Rightarrow> 'a word list" where
  "invert_table n m tbl = fold (\<lambda>i t. t[unat (m ! i) := of_nat i]) [0..<n] tbl"

text \<open>\<open>j = (ctx->key[(r + i) % PROBLEMA_KEY_SIZE] * i) % (i + 1)\<close>: all operands are
  non-negative and below \<open>2^31\<close>, so this is arithmetic on naturals.\<close>

definition rotor_shuffle_index :: "byte_t list \<Rightarrow> nat \<Rightarrow> nat \<Rightarrow> nat" where
  "rotor_shuffle_index k r i = (unat (k ! ((r + i) mod PROBLEMA_KEY_SIZE)) * i) mod (i + 1)"

definition init_notches :: "byte_t list \<Rightarrow> nat \<Rightarrow> int \<Rightarrow> int list \<Rightarrow> int list" where
  "init_notches k r nn old =
     fold (\<lambda>n np. np[n := (uint (k ! ((r + n + 2) mod PROBLEMA_KEY_SIZE)) * 251) smod 65536])
       [0..<nat nn] old"

definition copy_notches :: "int \<Rightarrow> int list \<Rightarrow> int list \<Rightarrow> int list" where
  "copy_notches nn src old = fold (\<lambda>n np. np[n := src ! n]) [0..<nat nn] old"

text \<open>The forward rotor \<open>r\<close> as \<open>init_rotors\<close> leaves it; \<open>old\<close> is the rotor before.\<close>

definition init_rotor :: "byte_t list \<Rightarrow> nat \<Rightarrow> ProblemaRotor \<Rightarrow> ProblemaRotor" where
  "init_rotor k r old =
     (let nn = (uint (k ! ((r + 1) mod PROBLEMA_KEY_SIZE)) smod 7) + 1
      in old\<lparr>position := uint (k ! (r mod PROBLEMA_KEY_SIZE)) smod 65536,
              num_notches := nn,
              notch_positions := init_notches k r nn (notch_positions old),
              mapping := shuffle_down (rotor_shuffle_index k r) (PROBLEMA_ROTOR_SIZE - 1)
                           (identity_table PROBLEMA_ROTOR_SIZE)\<rparr>)"

text \<open>The inverse rotor built from the forward rotor \<open>rot\<close>.\<close>

definition init_inverse_rotor :: "ProblemaRotor \<Rightarrow> ProblemaRotor \<Rightarrow> ProblemaRotor" where
  "init_inverse_rotor rot old =
     old\<lparr>mapping := invert_table PROBLEMA_ROTOR_SIZE (mapping rot) (mapping old),
         position := position rot,
         num_notches := num_notches rot,
         notch_positions := copy_notches (num_notches rot) (notch_positions rot)
                              (notch_positions old)\<rparr>"

definition init_rotors_step :: "nat \<Rightarrow> ProblemaContext \<Rightarrow> ProblemaContext" where
  "init_rotors_step r ctx =
     (let rot = init_rotor (key ctx) r (rotors ctx ! r)
      in ctx\<lparr>rotors := (rotors ctx)[r := rot],
              inverse_rotors :=
                (inverse_rotors ctx)[r := init_inverse_rotor rot (inverse_rotors ctx ! r)]\<rparr>)"

definition init_rotors :: "ProblemaContext \<Rightarrow> ProblemaContext" where
  "init_rotors ctx = fold init_rotors_step [0..<PROBLEMA_NUM_ROTORS] ctx"

text \<open>The index \<open>a\<close> of swap \<open>i\<close>; the index \<open>b\<close> is \<open>plug_index k (i + 2)\<close>.\<close>

definition plug_index :: "byte_t list \<Rightarrow> nat \<Rightarrow> nat" where
  "plug_index k i =
     (unat (k ! (i mod PROBLEMA_KEY_SIZE)) * 251 + unat (k ! ((i + 1) mod PROBLEMA_KEY_SIZE)))
       mod 65536"

definition init_plugboard :: "ProblemaContext \<Rightarrow> ProblemaContext" where
  "init_plugboard ctx =
     (let num_swaps = (unat (key ctx ! 0) mod 100) + 50
      in ctx\<lparr>plugboard :=
           fold (\<lambda>i m. swap_at m (plug_index (key ctx) i) (plug_index (key ctx) (i + 2)))
             [0..<num_swaps] (identity_table PROBLEMA_ROTOR_SIZE)\<rparr>)"

definition sbox_shuffle_index :: "byte_t list \<Rightarrow> nat \<Rightarrow> nat" where
  "sbox_shuffle_index k i = (unat (k ! (i mod PROBLEMA_KEY_SIZE)) * i) mod (i + 1)"

definition init_aes_components :: "ProblemaContext \<Rightarrow> ProblemaContext" where
  "init_aes_components ctx =
     (let sb = shuffle_down (sbox_shuffle_index (key ctx)) (PROBLEMA_SBOX_SIZE - 1)
                 (identity_table PROBLEMA_SBOX_SIZE)
      in ctx\<lparr>aes := (aes ctx)\<lparr>
           sbox := sb,
           inv_sbox := invert_table PROBLEMA_SBOX_SIZE sb (inv_sbox (aes ctx)),
           round_keys :=
             map (\<lambda>round. map (\<lambda>i. key ctx ! ((i + round * 4) mod PROBLEMA_KEY_SIZE))
                             [0..<PROBLEMA_BLOCK_SIZE])
               [0..<PROBLEMA_NUM_ROUNDS + 1]\<rparr>\<rparr>)"

text \<open>The body of \<open>problema_init\<close> after the null check; \<open>k\<close> holds the 32 key bytes.\<close>

definition init_context :: "ProblemaContext \<Rightarrow> byte_t list \<Rightarrow> ProblemaContext" where
  "init_context ctx k =
     (let ctx1 = ctx\<lparr>key := take PROBLEMA_KEY_SIZE k\<rparr>;
          ctx2 = init_rotors ctx1;
          ctx3 = init_plugboard ctx2;
          ctx4 = init_aes_components ctx3
      in ctx4\<lparr>feedback := replicate PROBLEMA_BLOCK_SIZE 0,
               initial_feedback := replicate PROBLEMA_BLOCK_SIZE 0,
               encrypt_mode := True,
               initialized := True\<rparr>)"

definition problema_init ::
  "ProblemaContext option \<Rightarrow> byte_t list option \<Rightarrow> problema_error + ProblemaContext" where
  "problema_init ctxp keyp =
     (case (ctxp, keyp) of
        (Some ctx, Some k) \<Rightarrow> Inr (init_context ctx k)
      | _ \<Rightarrow> Inl ERROR_NULL_POINTER)"

definition problema_cleanup :: "ProblemaContext option \<Rightarrow> ProblemaContext option" where
  "problema_cleanup ctxp =
     (case ctxp of
        None \<Rightarrow> None
      | Some ctx \<Rightarrow> Some (ctx\<lparr>key := replicate PROBLEMA_KEY_SIZE 0,
                             feedback := replicate PROBLEMA_BLOCK_SIZE 0,
                             initialized := False\<rparr>))"

section \<open>Block mode (problema_encrypt_block, problema_decrypt_block)\<close>

definition apply_aes_transformation :: "ProblemaContext \<Rightarrow> byte_t list \<Rightarrow> byte_t list" where
  "apply_aes_transformation ctx block0 =
     (let temp1 = map (\<lambda>i. sbox (aes ctx) ! unat (block0 ! i)) [0..<PROBLEMA_BLOCK_SIZE];
          block1 = concat (map (\<lambda>i. map (\<lambda>j. temp1 ! (i * 4 + (j + i) mod 4)) [0..<4]) [0..<4]);
          temp2 = block1;
          block2 = concat (map (\<lambda>i.
                     (let a = temp2 ! (i * 4 + 0); b = temp2 ! (i * 4 + 1);
                          c = temp2 ! (i * 4 + 2); d = temp2 ! (i * 4 + 3)
                      in [(a XOR b) XOR 0, (b XOR c) XOR 0, (c XOR d) XOR 0, (d XOR a) XOR 0]))
                     [0..<4])
      in map (\<lambda>i. block2 ! i XOR round_keys (aes ctx) ! 0 ! i) [0..<PROBLEMA_BLOCK_SIZE])"

definition apply_inverse_aes_transformation :: "ProblemaContext \<Rightarrow> byte_t list \<Rightarrow> byte_t list" where
  "apply_inverse_aes_transformation ctx block0 =
     (let block1 = map (\<lambda>i. block0 ! i XOR round_keys (aes ctx) ! 0 ! i) [0..<PROBLEMA_BLOCK_SIZE];
          temp1 = block1;
          block2 = concat (map (\<lambda>i.
                     (let a = temp1 ! (i * 4 + 0); b = temp1 ! (i * 4 + 1);
                          c = temp1 ! (i * 4 + 2); d = temp1 ! (i * 4 + 3)
                      in [(d XOR a) XOR 0, (a XOR b) XOR 0, (b XOR c) XOR 0, (c XOR d) XOR 0]))
                     [0..<4]);
          temp2 = block2;
          block3 = fold (\<lambda>i blk. fold (\<lambda>j blk'. blk'[i * 4 + (j + i) mod 4 := temp2 ! (i * 4 + j)])
                                    [0..<4] blk)
                     [0..<4] block2
      in map (\<lambda>i. inv_sbox (aes ctx) ! unat (block3 ! i)) [0..<PROBLEMA_BLOCK_SIZE])"

definition update_feedback :: "ProblemaContext \<Rightarrow> byte_t list \<Rightarrow> ProblemaContext" where
  "update_feedback ctx block =
     ctx\<lparr>feedback := fold (\<lambda>i f. f[i := block ! i]) [0..<PROBLEMA_BLOCK_SIZE] (feedback ctx)\<rparr>"

text \<open>The block functions return \<open>None\<close> for the output when they leave the output
  buffer untouched (null or uninitialized context).  The input and output pointers are
  taken to be valid.\<close>

definition encrypt_block :: "ProblemaContext \<Rightarrow> byte_t list \<Rightarrow> byte_t list \<times> ProblemaContext" where
  "encrypt_block ctx input =
     (let output0 = take PROBLEMA_BLOCK_SIZE input;
          output1 = map (\<lambda>i. output0 ! i XOR feedback ctx ! i) [0..<PROBLEMA_BLOCK_SIZE];
          output2 = apply_aes_transformation ctx output1
      in (output2, update_feedback ctx output2))"

definition decrypt_block :: "ProblemaContext \<Rightarrow> byte_t list \<Rightarrow> byte_t list \<times> ProblemaContext" where
  "decrypt_block ctx input =
     (let temp_block = take PROBLEMA_BLOCK_SIZE input;
          output0 = take PROBLEMA_BLOCK_SIZE input;
          output1 = apply_inverse_aes_transformation ctx output0;
          output2 = map (\<lambda>i. output1 ! i XOR feedback ctx ! i) [0..<PROBLEMA_BLOCK_SIZE]
      in (output2, update_feedback ctx temp_block))"

definition problema_encrypt_block ::
  "ProblemaContext option \<Rightarrow> byte_t list \<Rightarrow> byte_t list option \<times> ProblemaContext option" where
  "problema_encrypt_block ctxp input =
     (case ctxp of
        None \<Rightarrow> (None, None)
      | Some ctx \<Rightarrow>
          if \<not> initialized ctx then (None, Some ctx)
          else (case encrypt_block ctx input of (out, ctx') \<Rightarrow> (Some out, Some ctx')))"

definition problema_decrypt_block ::
  "ProblemaContext option \<Rightarrow> byte_t list \<Rightarrow> byte_t list option \<times> ProblemaContext option" where
  "problema_decrypt_block ctxp input =
     (case ctxp of
        None \<Rightarrow> (None, None)
      | Some ctx \<Rightarrow>
          if \<not> initialized ctx then (None, Some ctx)
          else (case decrypt_block ctx input of (out, ctx') \<Rightarrow> (Some out, Some ctx')))"

section \<open>UTF-8 codec (utf8_to_unicode, unicode_to_utf8)\<close>

text \<open>One pass of the \<open>while\<close> loop of \<open>utf8_to_unicode\<close> on the bytes from \<open>utf8[i]\<close>
  on: the code point and the bytes left, or \<open>None\<close> where the loop returns
  \<open>PROBLEMA_ERROR_INVALID_UTF8\<close>.  \<open>i + k >= utf8_len\<close> is a missing byte.\<close>

fun decode_sequence :: "byte_t list \<Rightarrow> (unicode_t \<times> byte_t list) option" where
  "decode_sequence [] = None"
| "decode_sequence (b0 # rest) =
     (if b0 AND 0x80 = 0 then Some (ucast b0, rest)
      else if b0 AND 0xE0 = 0xC0 then
        (case rest of
           b1 # rest' \<Rightarrow>
             if b1 AND 0xC0 \<noteq> 0x80 then None
             else Some (push_bit 6 (ucast (b0 AND 0x1F)) OR ucast (b1 AND 0x3F), rest')
         | _ \<Rightarrow> None)
      else if b0 AND 0xF0 = 0xE0 then
        (case rest of
           b1 # b2 # rest' \<Rightarrow>
             if b1 AND 0xC0 \<noteq> 0x80 \<or> b2 AND 0xC0 \<noteq> 0x80 then None
             else Some (push_bit 12 (ucast (b0 AND 0x0F)) OR push_bit 6 (ucast (b1 AND 0x3F))
                          OR ucast (b2 AND 0x3F), rest')
         | _ \<Rightarrow> None)
      else if b0 AND 0xF8 = 0xF0 then
        (case rest of
           b1 # b2 # b3 # rest' \<Rightarrow>
             if b1 AND 0xC0 \<noteq> 0x80 \<or> b2 AND 0xC0 \<noteq> 0x80 \<or> b3 AND 0xC0 \<noteq> 0x80 then None
             else Some (push_bit 18 (ucast (b0 AND 0x07)) OR push_bit 12 (ucast (b1 AND 0x3F))
                          OR push_bit 6 (ucast (b2 AND 0x3F)) OR ucast (b3 AND 0x3F), rest')
         | _ \<Rightarrow> None)
      else None)"

lemma decode_sequence_shorter:
  "decode_sequence bs = Some (c, rest) \<Longrightarrow> length rest < length bs"
  by (cases bs) (auto split: if_splits list.splits)

text \<open>The loop \<open>while (i < utf8_len && j < unicode_size)\<close>: \<open>bs\<close> is the input from
  \<open>utf8[i]\<close> on, \<open>acc\<close> the \<open>j\<close> code points written.  It returns what is left of the
  input at the exit, and the code points.\<close>

function utf8_to_unicode_loop ::
  "nat \<Rightarrow> byte_t list \<Rightarrow> unicode_t list \<Rightarrow> problema_error + (byte_t list \<times> unicode_t list)" where
  "utf8_to_unicode_loop unicode_size bs acc =
     (if bs \<noteq> [] \<and> length acc < unicode_size then
        (case decode_sequence bs of
           None \<Rightarrow> Inl ERROR_INVALID_UTF8
         | Some (c, rest) \<Rightarrow> utf8_to_unicode_loop unicode_size rest (acc @ [c]))
      else Inr (bs, acc))"
  by pat_completeness auto
termination
  by (relation "measure (\<lambda>(n, bs, acc). length bs)") (auto dest: decode_sequence_shorter)

definition utf8_to_unicode :: "byte_t list \<Rightarrow> nat \<Rightarrow> problema_error + unicode_t list" where
  "utf8_to_unicode utf8 unicode_size =
     (case utf8_to_unicode_loop unicode_size utf8 [] of
        Inl e \<Rightarrow> Inl e
      | Inr (rest, unicode) \<Rightarrow>
          if rest \<noteq> [] \<and> length unicode \<ge> unicode_size then Inl ERROR_BUFFER_TOO_SMALL
          else Inr unicode)"

text \<open>The bytes one pass of the loop of \<open>unicode_to_utf8\<close> writes for \<open>code\<close>; \<open>None\<close>
  is the last \<open>else\<close>, a code point above \<open>0x10FFFF\<close>.\<close>

definition encode_code_point :: "unicode_t \<Rightarrow> byte_t list option" where
  "encode_code_point code =
     (if code \<le> 0x7F then Some [ucast code]
      else if code \<le> 0x7FF then
        Some [ucast (0xC0 OR drop_bit 6 code), ucast (0x80 OR (code AND 0x3F))]
      else if code \<le> 0xFFFF then
        Some [ucast (0xE0 OR drop_bit 12 code), ucast (0x80 OR (drop_bit 6 code AND 0x3F)),
              ucast (0x80 OR (code AND 0x3F))]
      else if code \<le> 0x10FFFF then
        Some [ucast (0xF0 OR drop_bit 18 code), ucast (0x80 OR (drop_bit 12 code AND 0x3F)),
              ucast (0x80 OR (drop_bit 6 code AND 0x3F)), ucast (0x80 OR (code AND 0x3F))]
      else None)"

text \<open>The \<open>for\<close> loop of \<open>unicode_to_utf8\<close>; \<open>out\<close> holds the \<open>j\<close> bytes written.\<close>

fun unicode_to_utf8_loop ::
  "nat \<Rightarrow> unicode_t list \<Rightarrow> byte_t list \<Rightarrow> problema_error + byte_t list" where
  "unicode_to_utf8_loop utf8_size [] out = Inr out"
| "unicode_to_utf8_loop utf8_size (code # rest) out =
     (case encode_code_point code of
        None \<Rightarrow> Inl ERROR_INVALID_UTF8
      | Some bs \<Rightarrow>
          if length out + length bs > utf8_size then Inl ERROR_BUFFER_TOO_SMALL
          else unicode_to_utf8_loop utf8_size rest (out @ bs))"

definition unicode_to_utf8 :: "unicode_t list \<Rightarrow> nat \<Rightarrow> problema_error + byte_t list" where
  "unicode_to_utf8 unicode utf8_size = unicode_to_utf8_loop utf8_size unicode []"

section \<open>String mode (problema_encrypt, problema_decrypt)\<close>

text \<open>What \<open>problema_encrypt\<close> does to the context between its checks and the decoding
  of the input.  (The local array \<open>initial_rotors_pos\<close> is filled and never read.)\<close>

definition encrypt_entry :: "ProblemaContext \<Rightarrow> ProblemaContext" where
  "encrypt_entry ctx =
     ctx\<lparr>encrypt_mode := True,
         feedback := replicate PROBLEMA_BLOCK_SIZE 0,
         initial_feedback := replicate PROBLEMA_BLOCK_SIZE 0\<rparr>"

definition decrypt_entry :: "ProblemaContext \<Rightarrow> ProblemaContext" where
  "decrypt_entry ctx =
     ctx\<lparr>encrypt_mode := False, feedback := replicate PROBLEMA_BLOCK_SIZE 0\<rparr>"

text \<open>\<open>for (i = 0; i < unicode_len; i++) buf[i] = problema_encrypt_char(ctx, buf[i])\<close>.\<close>

fun encrypt_chars :: "ProblemaContext \<Rightarrow> unicode_t list \<Rightarrow> unicode_t list \<times> ProblemaContext" where
  "encrypt_chars ctx [] = ([], ctx)"
| "encrypt_chars ctx (c # cs) =
     (case encrypt_char ctx c of
        (y, ctx') \<Rightarrow> (case encrypt_chars ctx' cs of (ys, ctx'') \<Rightarrow> (y # ys, ctx'')))"

fun decrypt_chars :: "ProblemaContext \<Rightarrow> unicode_t list \<Rightarrow> unicode_t list \<times> ProblemaContext" where
  "decrypt_chars ctx [] = ([], ctx)"
| "decrypt_chars ctx (c # cs) =
     (case decrypt_char ctx c of
        (y, ctx') \<Rightarrow> (case decrypt_chars ctx' cs of (ys, ctx'') \<Rightarrow> (y # ys, ctx'')))"

text \<open>The string functions return the result (an error, or the \<open>*output_len\<close> bytes
  written) and the context as the call leaves it.  \<open>input_len\<close> is the length of the
  input; \<open>malloc\<close> is taken to succeed and the output pointers to be valid.\<close>

definition problema_encrypt ::
  "ProblemaContext option \<Rightarrow> byte_t list option \<Rightarrow> nat
     \<Rightarrow> (problema_error + byte_t list) \<times> ProblemaContext option" where
  "problema_encrypt ctxp inputp output_size =
     (case (ctxp, inputp) of
        (Some ctx, Some input) \<Rightarrow>
          if \<not> initialized ctx then (Inl ERROR_NOT_INITIALIZED, Some ctx)
          else
            (let ctx1 = encrypt_entry ctx
             in case utf8_to_unicode input (length input) of
                  Inl e \<Rightarrow> (Inl e, Some ctx1)
                | Inr unicode_buffer \<Rightarrow>
                    (case encrypt_chars ctx1 unicode_buffer of
                       (buf, ctx2) \<Rightarrow> (unicode_to_utf8 buf output_size, Some ctx2)))
      | _ \<Rightarrow> (Inl ERROR_NULL_POINTER, ctxp))"

definition problema_decrypt ::
  "ProblemaContext option \<Rightarrow> byte_t list option \<Rightarrow> nat
     \<Rightarrow> (problema_error + byte_t list) \<times> ProblemaContext option" where
  "problema_decrypt ctxp inputp output_size =
     (case (ctxp, inputp) of
        (Some ctx, Some input) \<Rightarrow>
          if \<not> initialized ctx then (Inl ERROR_NOT_INITIALIZED, Some ctx)
          else
            (let ctx1 = decrypt_entry ctx
             in case utf8_to_unicode input (length input) of
                  Inl e \<Rightarrow> (Inl e, Some ctx1)
                | Inr unicode_buffer \<Rightarrow>
                    (case decrypt_chars ctx1 unicode_buffer of
                       (buf, ctx2) \<Rightarrow> (unicode_to_utf8 buf output_size, Some ctx2)))
      | _ \<Rightarrow> (Inl ERROR_NULL_POINTER, ctxp))"

section \<open>Storage, reachable contexts and the specification's side\<close>

text \<open>The array bounds of the declarations in problema.h.\<close>

definition rotor_alloc :: "ProblemaRotor \<Rightarrow> bool" where
  "rotor_alloc rot =
     (length (mapping rot) = PROBLEMA_ROTOR_SIZE \<and> length (notch_positions rot) = 8)"

definition ctx_alloc :: "ProblemaContext \<Rightarrow> bool" where
  "ctx_alloc ctx =
     (length (rotors ctx) = PROBLEMA_NUM_ROTORS \<and> list_all rotor_alloc (rotors ctx)
      \<and> length (inverse_rotors ctx) = PROBLEMA_NUM_ROTORS
      \<and> list_all rotor_alloc (inverse_rotors ctx)
      \<and> length (plugboard ctx) = PROBLEMA_ROTOR_SIZE
      \<and> length (sbox (aes ctx)) = PROBLEMA_SBOX_SIZE
      \<and> length (inv_sbox (aes ctx)) = PROBLEMA_SBOX_SIZE
      \<and> length (round_keys (aes ctx)) = PROBLEMA_NUM_ROUNDS + 1
      \<and> list_all (\<lambda>rk. length rk = PROBLEMA_BLOCK_SIZE) (round_keys (aes ctx))
      \<and> length (key ctx) = PROBLEMA_KEY_SIZE
      \<and> length (feedback ctx) = PROBLEMA_BLOCK_SIZE
      \<and> length (initial_feedback ctx) = PROBLEMA_BLOCK_SIZE)"

text \<open>A context whose storage is all zero, as a static object is before
  \<open>problema_init\<close>; used where a concrete context is needed.\<close>

definition zero_rotor :: ProblemaRotor where
  "zero_rotor = \<lparr>mapping = replicate PROBLEMA_ROTOR_SIZE 0, position = 0,
                 notch_positions = replicate 8 0, num_notches = 0\<rparr>"

definition zero_context :: ProblemaContext where
  "zero_context =
     \<lparr>rotors = replicate PROBLEMA_NUM_ROTORS zero_rotor,
      inverse_rotors = replicate PROBLEMA_NUM_ROTORS zero_rotor,
      plugboard = replicate PROBLEMA_ROTOR_SIZE 0,
      aes = \<lparr>sbox = replicate PROBLEMA_SBOX_SIZE 0, inv_sbox = replicate PROBLEMA_SBOX_SIZE 0,
             round_keys = replicate (PROBLEMA_NUM_ROUNDS + 1) (replicate PROBLEMA_BLOCK_SIZE 0)\<rparr>,
      key = replicate PROBLEMA_KEY_SIZE 0,
      feedback = replicate PROBLEMA_BLOCK_SIZE 0,
      initial_feedback = replicate PROBLEMA_BLOCK_SIZE 0,
      encrypt_mode = False,
      initialized = False\<rparr>"

text \<open>The contexts a caller of the public functions can hold: \<open>problema_init\<close> on any
  storage with a 32-byte key, then any sequence of calls.\<close>

inductive reachable :: "ProblemaContext \<Rightarrow> bool" where
  reach_init:
    "ctx_alloc ctx0 \<Longrightarrow> length k = PROBLEMA_KEY_SIZE \<Longrightarrow> reachable (init_context ctx0 k)"
| reach_encrypt_char:
    "reachable ctx \<Longrightarrow> reachable (snd (encrypt_char ctx x))"
| reach_decrypt_char:
    "reachable ctx \<Longrightarrow> reachable (snd (decrypt_char ctx x))"
| reach_encrypt_block:
    "reachable ctx \<Longrightarrow> length input = PROBLEMA_BLOCK_SIZE
       \<Longrightarrow> problema_encrypt_block (Some ctx) input = (out, Some ctx') \<Longrightarrow> reachable ctx'"
| reach_decrypt_block:
    "reachable ctx \<Longrightarrow> length input = PROBLEMA_BLOCK_SIZE
       \<Longrightarrow> problema_decrypt_block (Some ctx) input = (out, Some ctx') \<Longrightarrow> reachable ctx'"
| reach_encrypt:
    "reachable ctx \<Longrightarrow> problema_encrypt (Some ctx) inputp n = (res, Some ctx')
       \<Longrightarrow> reachable ctx'"
| reach_decrypt:
    "reachable ctx \<Longrightarrow> problema_decrypt (Some ctx) inputp n = (res, Some ctx')
       \<Longrightarrow> reachable ctx'"
| reach_cleanup:
    "reachable ctx \<Longrightarrow> problema_cleanup (Some ctx) = Some ctx' \<Longrightarrow> reachable ctx'"

text \<open>The invariant of reachable contexts that the rotor bank relies on: the storage
  bounds, positions in \<open>[0, 65536)\<close>, and inverse rotor positions equal to the forward
  ones (I1).\<close>

definition positions_ok :: "ProblemaContext \<Rightarrow> bool" where
  "positions_ok ctx =
     list_all (\<lambda>r. 0 \<le> position (rotors ctx ! r) \<and> position (rotors ctx ! r) < 65536
                  \<and> position (inverse_rotors ctx ! r) = position (rotors ctx ! r))
       [0..<PROBLEMA_NUM_ROTORS]"

text \<open>The specification's rotor advancement (section 4.3), in its words: rotor 0 always
  advances; rotor \<open>r + 1\<close> advances when rotor \<open>r\<close> advanced and the new position of
  rotor \<open>r\<close> is one of its notches.\<close>

definition notches :: "ProblemaRotor \<Rightarrow> int set" where
  "notches rot = set (take (nat (num_notches rot)) (notch_positions rot))"

fun spec_advances :: "ProblemaContext \<Rightarrow> nat \<Rightarrow> bool" where
  "spec_advances ctx 0 = True"
| "spec_advances ctx (Suc r) =
     (spec_advances ctx r
      \<and> (position (rotors ctx ! r) + 1) mod 65536 \<in> notches (rotors ctx ! r))"

definition spec_position :: "ProblemaContext \<Rightarrow> nat \<Rightarrow> int" where
  "spec_position ctx r =
     (if spec_advances ctx r then (position (rotors ctx ! r) + 1) mod 65536
      else position (rotors ctx ! r))"

text \<open>Valid UTF-8, which the source does not define: the well-formed byte sequences
  of the Unicode Standard (Table 3-7; RFC 3629), that is, shortest forms of the code
  points up to \<open>0x10FFFF\<close> other than surrogates.\<close>

definition in_range :: "byte_t \<Rightarrow> byte_t \<Rightarrow> byte_t \<Rightarrow> bool" where
  "in_range lo hi b = (lo \<le> b \<and> b \<le> hi)"

definition sequence_length :: "byte_t \<Rightarrow> nat" where
  "sequence_length b0 =
     (if b0 \<le> 0x7F then 1 else if in_range 0xC2 0xDF b0 then 2
      else if in_range 0xE0 0xEF b0 then 3 else if in_range 0xF0 0xF4 b0 then 4 else 0)"

fun utf8_sequence :: "byte_t list \<Rightarrow> bool" where
  "utf8_sequence [b0] = (b0 \<le> 0x7F)"
| "utf8_sequence [b0, b1] = (in_range 0xC2 0xDF b0 \<and> in_range 0x80 0xBF b1)"
| "utf8_sequence [b0, b1, b2] =
     ((b0 = 0xE0 \<and> in_range 0xA0 0xBF b1
       \<or> in_range 0xE1 0xEC b0 \<and> in_range 0x80 0xBF b1
       \<or> b0 = 0xED \<and> in_range 0x80 0x9F b1
       \<or> in_range 0xEE 0xEF b0 \<and> in_range 0x80 0xBF b1)
      \<and> in_range 0x80 0xBF b2)"
| "utf8_sequence [b0, b1, b2, b3] =
     ((b0 = 0xF0 \<and> in_range 0x90 0xBF b1
       \<or> in_range 0xF1 0xF3 b0 \<and> in_range 0x80 0xBF b1
       \<or> b0 = 0xF4 \<and> in_range 0x80 0x8F b1)
      \<and> in_range 0x80 0xBF b2 \<and> in_range 0x80 0xBF b3)"
| "utf8_sequence _ = False"

fun valid_utf8 :: "byte_t list \<Rightarrow> bool" where
  "valid_utf8 [] = True"
| "valid_utf8 (b0 # bs) =
     (let n = sequence_length b0
      in 0 < n \<and> n - 1 \<le> length bs \<and> utf8_sequence (b0 # take (n - 1) bs)
         \<and> valid_utf8 (drop (n - 1) bs))"

text \<open>The key \<open>02 01 01 \<dots> 01\<close> of the round-trip failure shown below.\<close>

definition failing_key :: "byte_t list" where
  "failing_key = 2 # replicate 31 1"

text \<open>The table that every rotor has under that key: rotor \<open>r\<close> exchanges \<open>k - 1\<close>
  and \<open>k\<close> for each \<open>k \<ge> 1\<close> with \<open>r + k\<close> a multiple of 32 (proved below, for the
  forward and the inverse rotors).\<close>

definition failing_key_table :: "nat \<Rightarrow> nat \<Rightarrow> nat" where
  "failing_key_table r k =
     (if 1 \<le> k \<and> (r + k) mod 32 = 0 then k - 1
      else if k + 1 < 65536 \<and> (r + k + 1) mod 32 = 0 then k + 1
      else k)"

text \<open>A sequence of calls of the per-character functions on one context.\<close>

datatype char_call = EncryptChar unicode_t | DecryptChar unicode_t

fun call_char :: "ProblemaContext \<Rightarrow> char_call \<Rightarrow> ProblemaContext" where
  "call_char ctx (EncryptChar x) = snd (encrypt_char ctx x)"
| "call_char ctx (DecryptChar x) = snd (decrypt_char ctx x)"

definition call_chars :: "ProblemaContext \<Rightarrow> char_call list \<Rightarrow> ProblemaContext" where
  "call_chars ctx calls = fold (\<lambda>call c. call_char c call) calls ctx"

section \<open>Invariants of the key schedule and of reachable contexts\<close>

lemma smod_nonneg: "0 \<le> a \<Longrightarrow> 0 < b \<Longrightarrow> (a::int) smod b = a mod b"
  by (cases "a = 0") (simp_all add: smod_int_alt_def)

lemma init_rotors_step_frame:
  "key (init_rotors_step r ctx) = key ctx"
  "plugboard (init_rotors_step r ctx) = plugboard ctx"
  "aes (init_rotors_step r ctx) = aes ctx"
  "feedback (init_rotors_step r ctx) = feedback ctx"
  "initial_feedback (init_rotors_step r ctx) = initial_feedback ctx"
  "length (rotors (init_rotors_step r ctx)) = length (rotors ctx)"
  "length (inverse_rotors (init_rotors_step r ctx)) = length (inverse_rotors ctx)"
  by (simp_all add: init_rotors_step_def Let_def)

lemma init_rotors_fold_frame:
  "key (fold init_rotors_step [0..<n] ctx) = key ctx"
  "plugboard (fold init_rotors_step [0..<n] ctx) = plugboard ctx"
  "aes (fold init_rotors_step [0..<n] ctx) = aes ctx"
  "feedback (fold init_rotors_step [0..<n] ctx) = feedback ctx"
  "initial_feedback (fold init_rotors_step [0..<n] ctx) = initial_feedback ctx"
  "length (rotors (fold init_rotors_step [0..<n] ctx)) = length (rotors ctx)"
  "length (inverse_rotors (fold init_rotors_step [0..<n] ctx)) = length (inverse_rotors ctx)"
  by (induction n) (simp_all add: init_rotors_step_frame)

lemma init_rotors_fold_nth:
  "n \<le> length (rotors ctx) \<Longrightarrow>
   rotors (fold init_rotors_step [0..<n] ctx) ! r =
     (if r < n then init_rotor (key ctx) r (rotors ctx ! r) else rotors ctx ! r)"
  by (induction n)
     (auto simp: init_rotors_step_def Let_def init_rotors_fold_frame nth_list_update less_Suc_eq)

lemma init_rotors_fold_inverse_nth:
  "n \<le> length (rotors ctx) \<Longrightarrow> n \<le> length (inverse_rotors ctx) \<Longrightarrow>
   inverse_rotors (fold init_rotors_step [0..<n] ctx) ! r =
     (if r < n then init_inverse_rotor (init_rotor (key ctx) r (rotors ctx ! r)) (inverse_rotors ctx ! r)
      else inverse_rotors ctx ! r)"
  by (induction n)
     (auto simp: init_rotors_step_def Let_def init_rotors_fold_frame init_rotors_fold_nth
        nth_list_update less_Suc_eq)


lemma length_swap_at [simp]: "length (swap_at m i j) = length m"
  by (simp add: swap_at_def Let_def)

lemma length_shuffle_down [simp]: "length (shuffle_down jf i m) = length m"
  by (induction i arbitrary: m) simp_all

lemma mset_swap_at:
  "i < length m \<Longrightarrow> j < length m \<Longrightarrow> mset (swap_at m i j) = mset m"
  by (simp add: swap_at_def Let_def mset_swap)

lemma mset_shuffle_down:
  "i < length m \<Longrightarrow> (\<And>i'. i' \<le> i \<Longrightarrow> jf i' \<le> i') \<Longrightarrow> mset (shuffle_down jf i m) = mset m"
proof (induction i arbitrary: m)
  case 0
  then show ?case by simp
next
  case (Suc i)
  have j: "jf (Suc i) < length m"
    using Suc.prems(1) Suc.prems(2) [of "Suc i"] by simp
  have "mset (shuffle_down jf i (swap_at m (Suc i) (jf (Suc i)))) = mset (swap_at m (Suc i) (jf (Suc i)))"
    using Suc.prems by (intro Suc.IH) simp_all
  then show ?case
    using Suc.prems(1) j by (simp add: mset_swap_at)
qed

lemma length_identity_table [simp]: "length (identity_table n) = n"
  by (simp add: identity_table_def)

lemma length_invert_table [simp]: "length (invert_table n m tbl) = length tbl"
  unfolding invert_table_def by (induction n) simp_all

lemma length_init_notches [simp]: "length (init_notches k r nn old) = length old"
proof -
  have "length (fold (\<lambda>n np. np[n := f n]) [0..<c] old) = length old" for f :: "nat \<Rightarrow> int" and c
    by (induction c) simp_all
  then show ?thesis by (simp add: init_notches_def)
qed

lemma length_copy_notches [simp]: "length (copy_notches nn src old) = length old"
proof -
  have "length (fold (\<lambda>n np. np[n := f n]) [0..<c] old) = length old" for f :: "nat \<Rightarrow> int" and c
    by (induction c) simp_all
  then show ?thesis by (simp add: copy_notches_def)
qed

lemma rotor_shuffle_index_le: "rotor_shuffle_index k r i \<le> i"
  by (simp add: rotor_shuffle_index_def less_Suc_eq_le [symmetric])

lemma sbox_shuffle_index_le: "sbox_shuffle_index k i \<le> i"
  by (simp add: sbox_shuffle_index_def less_Suc_eq_le [symmetric])

lemma init_rotor_fields:
  "position (init_rotor k r old) = uint (k ! (r mod PROBLEMA_KEY_SIZE))"
  "num_notches (init_rotor k r old) = uint (k ! ((r + 1) mod PROBLEMA_KEY_SIZE)) mod 7 + 1"
  "length (mapping (init_rotor k r old)) = PROBLEMA_ROTOR_SIZE"
  "length (notch_positions (init_rotor k r old)) = length (notch_positions old)"
proof -
  have "uint (k ! (r mod PROBLEMA_KEY_SIZE)) < 65536"
    using uint_bounded [of "k ! (r mod PROBLEMA_KEY_SIZE)"] by simp
  then show "position (init_rotor k r old) = uint (k ! (r mod PROBLEMA_KEY_SIZE))"
    by (simp add: init_rotor_def Let_def smod_nonneg)
qed (simp_all add: init_rotor_def Let_def smod_nonneg)

lemma init_inverse_rotor_fields:
  "position (init_inverse_rotor rot old) = position rot"
  "num_notches (init_inverse_rotor rot old) = num_notches rot"
  "length (mapping (init_inverse_rotor rot old)) = length (mapping old)"
  "length (notch_positions (init_inverse_rotor rot old)) = length (notch_positions old)"
  by (simp_all add: init_inverse_rotor_def)

lemma init_context_rotors:
  assumes "length (rotors ctx) = PROBLEMA_NUM_ROTORS" "r < PROBLEMA_NUM_ROTORS"
  shows "rotors (init_context ctx k) ! r = init_rotor (take PROBLEMA_KEY_SIZE k) r (rotors ctx ! r)"
  using assms
  by (simp add: init_context_def Let_def init_aes_components_def init_plugboard_def
      init_rotors_def init_rotors_fold_nth)

lemma init_context_inverse_rotors:
  assumes "length (rotors ctx) = PROBLEMA_NUM_ROTORS"
    "length (inverse_rotors ctx) = PROBLEMA_NUM_ROTORS" "r < PROBLEMA_NUM_ROTORS"
  shows "inverse_rotors (init_context ctx k) ! r =
           init_inverse_rotor (init_rotor (take PROBLEMA_KEY_SIZE k) r (rotors ctx ! r))
             (inverse_rotors ctx ! r)"
  using assms
  by (simp add: init_context_def Let_def init_aes_components_def init_plugboard_def
      init_rotors_def init_rotors_fold_inverse_nth)

lemma init_context_frame:
  "length (rotors (init_context ctx k)) = length (rotors ctx)"
  "length (inverse_rotors (init_context ctx k)) = length (inverse_rotors ctx)"
  "feedback (init_context ctx k) = replicate PROBLEMA_BLOCK_SIZE 0"
  "initial_feedback (init_context ctx k) = replicate PROBLEMA_BLOCK_SIZE 0"
  "initialized (init_context ctx k)"
  "key (init_context ctx k) = take PROBLEMA_KEY_SIZE k"
  by (simp_all add: init_context_def Let_def init_aes_components_def init_plugboard_def
      init_rotors_def init_rotors_fold_frame)


lemma list_all_update:
  "list_all P xs \<Longrightarrow> P x \<Longrightarrow> list_all P (xs[i := x])"
  by (auto simp: list_all_iff dest: set_update_subset_insert [THEN subsetD])

lemma rotor_alloc_position [simp]: "rotor_alloc (rot\<lparr>position := p\<rparr>) = rotor_alloc rot"
  by (simp add: rotor_alloc_def)

lemma length_plug_fold:
  "length (fold (\<lambda>i m. swap_at m (f i) (g i)) xs m0) = length m0"
  by (induction xs arbitrary: m0) simp_all

lemma init_context_alloc:
  assumes "ctx_alloc ctx0" "length k = PROBLEMA_KEY_SIZE"
  shows "ctx_alloc (init_context ctx0 k)"
proof -
  have len: "length (rotors ctx0) = PROBLEMA_NUM_ROTORS"
    "length (inverse_rotors ctx0) = PROBLEMA_NUM_ROTORS"
    and ra: "\<And>r. r < PROBLEMA_NUM_ROTORS \<Longrightarrow> rotor_alloc (rotors ctx0 ! r)"
      "\<And>r. r < PROBLEMA_NUM_ROTORS \<Longrightarrow> rotor_alloc (inverse_rotors ctx0 ! r)"
    and sb: "length (inv_sbox (aes ctx0)) = PROBLEMA_SBOX_SIZE"
    using assms(1) by (simp_all add: ctx_alloc_def list_all_length)
  have 1: "list_all rotor_alloc (rotors (init_context ctx0 k))"
    using len ra
    by (simp add: list_all_length init_context_frame init_context_rotors rotor_alloc_def
        init_rotor_fields)
  have 2: "list_all rotor_alloc (inverse_rotors (init_context ctx0 k))"
    using len ra
    by (simp add: list_all_length init_context_frame init_context_inverse_rotors rotor_alloc_def
        init_inverse_rotor_fields)
  have 3: "length (plugboard (init_context ctx0 k)) = PROBLEMA_ROTOR_SIZE"
    by (simp add: init_context_def Let_def init_aes_components_def init_plugboard_def
        length_plug_fold)
  have 4: "length (sbox (aes (init_context ctx0 k))) = PROBLEMA_SBOX_SIZE"
    "length (inv_sbox (aes (init_context ctx0 k))) = PROBLEMA_SBOX_SIZE"
    "length (round_keys (aes (init_context ctx0 k))) = PROBLEMA_NUM_ROUNDS + 1"
    "list_all (\<lambda>rk. length rk = PROBLEMA_BLOCK_SIZE) (round_keys (aes (init_context ctx0 k)))"
    using sb
    by (simp_all add: init_context_def Let_def init_aes_components_def init_plugboard_def
        init_rotors_def init_rotors_fold_frame list_all_iff)
  show ?thesis
    unfolding ctx_alloc_def
    using 1 2 3 4 len assms(2) by (simp add: init_context_frame)
qed

lemma positions_okI:
  "(\<And>r. r < PROBLEMA_NUM_ROTORS \<Longrightarrow> 0 \<le> position (rotors ctx ! r)
      \<and> position (rotors ctx ! r) < 65536
      \<and> position (inverse_rotors ctx ! r) = position (rotors ctx ! r)) \<Longrightarrow> positions_ok ctx"
  by (simp add: positions_ok_def list_all_iff)

lemma positions_okD:
  assumes "positions_ok ctx" "r < PROBLEMA_NUM_ROTORS"
  shows "0 \<le> position (rotors ctx ! r)" "position (rotors ctx ! r) < 65536"
    "position (inverse_rotors ctx ! r) = position (rotors ctx ! r)"
  using assms by (simp_all add: positions_ok_def list_all_iff)

lemma init_context_positions:
  assumes "ctx_alloc ctx0"
  shows "positions_ok (init_context ctx0 k)"
proof (rule positions_okI)
  fix r assume r: "r < PROBLEMA_NUM_ROTORS"
  have len: "length (rotors ctx0) = PROBLEMA_NUM_ROTORS"
    "length (inverse_rotors ctx0) = PROBLEMA_NUM_ROTORS"
    using assms by (simp_all add: ctx_alloc_def)
  have "uint (take PROBLEMA_KEY_SIZE k ! (r mod PROBLEMA_KEY_SIZE)) < 65536"
    using uint_bounded [of "take PROBLEMA_KEY_SIZE k ! (r mod PROBLEMA_KEY_SIZE)"] by simp
  then show "0 \<le> position (rotors (init_context ctx0 k) ! r)
      \<and> position (rotors (init_context ctx0 k) ! r) < 65536
      \<and> position (inverse_rotors (init_context ctx0 k) ! r)
          = position (rotors (init_context ctx0 k) ! r)"
    using r len
    by (simp add: init_context_rotors init_context_inverse_rotors init_rotor_fields
        init_inverse_rotor_fields)
qed

lemma advance_rotor_nth:
  "r < length (rotors ctx) \<Longrightarrow>
   rotors (advance_rotor r ctx) ! r' =
     (if r' = r then (rotors ctx ! r)\<lparr>position := (position (rotors ctx ! r) + 1) smod 65536\<rparr>
      else rotors ctx ! r')"
  "r < length (inverse_rotors ctx) \<Longrightarrow>
   inverse_rotors (advance_rotor r ctx) ! r' =
     (if r' = r
      then (inverse_rotors ctx ! r)\<lparr>position := (position (rotors ctx ! r) + 1) smod 65536\<rparr>
      else inverse_rotors ctx ! r')"
  by (simp_all add: advance_rotor_def Let_def nth_list_update)

lemma advance_rotor_frame:
  "length (rotors (advance_rotor r ctx)) = length (rotors ctx)"
  "length (inverse_rotors (advance_rotor r ctx)) = length (inverse_rotors ctx)"
  "plugboard (advance_rotor r ctx) = plugboard ctx"
  "aes (advance_rotor r ctx) = aes ctx"
  "key (advance_rotor r ctx) = key ctx"
  "feedback (advance_rotor r ctx) = feedback ctx"
  "initial_feedback (advance_rotor r ctx) = initial_feedback ctx"
  "encrypt_mode (advance_rotor r ctx) = encrypt_mode ctx"
  "initialized (advance_rotor r ctx) = initialized ctx"
  by (simp_all add: advance_rotor_def Let_def)

lemma advance_rotor_alloc:
  "ctx_alloc ctx \<Longrightarrow> r < PROBLEMA_NUM_ROTORS \<Longrightarrow> ctx_alloc (advance_rotor r ctx)"
  by (auto simp: ctx_alloc_def advance_rotor_def Let_def list_all_length nth_list_update)

lemma advance_rotor_positions:
  assumes "positions_ok ctx" "length (rotors ctx) = PROBLEMA_NUM_ROTORS"
    "length (inverse_rotors ctx) = PROBLEMA_NUM_ROTORS" "r < PROBLEMA_NUM_ROTORS"
  shows "positions_ok (advance_rotor r ctx)"
proof (rule positions_okI)
  fix r' assume r': "r' < PROBLEMA_NUM_ROTORS"
  have p: "0 \<le> position (rotors ctx ! r)" using positions_okD(1) [OF assms(1,4)] .
  then have "(position (rotors ctx ! r) + 1) smod 65536 = (position (rotors ctx ! r) + 1) mod 65536"
    by (simp add: smod_nonneg)
  then show "0 \<le> position (rotors (advance_rotor r ctx) ! r')
      \<and> position (rotors (advance_rotor r ctx) ! r') < 65536
      \<and> position (inverse_rotors (advance_rotor r ctx) ! r')
          = position (rotors (advance_rotor r ctx) ! r')"
    using assms(2-4) positions_okD [OF assms(1) r']
    by (simp add: advance_rotor_nth)
qed


lemma rotate_carry_inv:
  assumes "ctx_alloc ctx" "positions_ok ctx" "\<And>r. r \<in> set rs \<Longrightarrow> r + 1 < PROBLEMA_NUM_ROTORS"
  shows "ctx_alloc (rotate_carry rs ctx) \<and> positions_ok (rotate_carry rs ctx)"
  using assms
proof (induction rs arbitrary: ctx)
  case Nil
  then show ?case by simp
next
  case (Cons r rs)
  have len: "length (rotors ctx) = PROBLEMA_NUM_ROTORS"
    "length (inverse_rotors ctx) = PROBLEMA_NUM_ROTORS"
    using Cons.prems(1) by (simp_all add: ctx_alloc_def)
  have r: "r + 1 < PROBLEMA_NUM_ROTORS" using Cons.prems(3) by simp
  show ?case
    using Cons.IH [of "advance_rotor (r + 1) ctx"] Cons.prems
      advance_rotor_alloc [OF Cons.prems(1) r] advance_rotor_positions [OF Cons.prems(2) len r]
    by simp
qed

lemma rotate_rotors_inv:
  assumes "ctx_alloc ctx" "positions_ok ctx"
  shows "ctx_alloc (rotate_rotors ctx)" "positions_ok (rotate_rotors ctx)"
proof -
  have len: "length (rotors ctx) = PROBLEMA_NUM_ROTORS"
    "length (inverse_rotors ctx) = PROBLEMA_NUM_ROTORS"
    using assms(1) by (simp_all add: ctx_alloc_def)
  have 0: "0 < PROBLEMA_NUM_ROTORS" by (simp add: PROBLEMA_NUM_ROTORS_def)
  have "ctx_alloc (rotate_rotors ctx) \<and> positions_ok (rotate_rotors ctx)"
    unfolding rotate_rotors_def
    by (rule rotate_carry_inv)
      (use assms len 0 in \<open>auto intro: advance_rotor_alloc advance_rotor_positions\<close>)
  then show "ctx_alloc (rotate_rotors ctx)" "positions_ok (rotate_rotors ctx)" by simp_all
qed

lemma rotate_carry_frame:
  "plugboard (rotate_carry rs ctx) = plugboard ctx"
  "aes (rotate_carry rs ctx) = aes ctx"
  "key (rotate_carry rs ctx) = key ctx"
  "feedback (rotate_carry rs ctx) = feedback ctx"
  "initial_feedback (rotate_carry rs ctx) = initial_feedback ctx"
  "encrypt_mode (rotate_carry rs ctx) = encrypt_mode ctx"
  "initialized (rotate_carry rs ctx) = initialized ctx"
  by (induction rs arbitrary: ctx; simp add: advance_rotor_frame)+

lemma rotate_rotors_frame:
  "plugboard (rotate_rotors ctx) = plugboard ctx"
  "aes (rotate_rotors ctx) = aes ctx"
  "key (rotate_rotors ctx) = key ctx"
  "feedback (rotate_rotors ctx) = feedback ctx"
  "initial_feedback (rotate_rotors ctx) = initial_feedback ctx"
  "encrypt_mode (rotate_rotors ctx) = encrypt_mode ctx"
  "initialized (rotate_rotors ctx) = initialized ctx"
  by (simp_all add: rotate_rotors_def rotate_carry_frame advance_rotor_frame)

lemma length_fold_update:
  "length (fold (\<lambda>i f. f[g i := h i]) xs fb) = length fb"
  by (induction xs arbitrary: fb) simp_all

lemma length_store_feedback [simp]: "length (store_feedback fb bs) = length fb"
  by (simp add: store_feedback_def length_fold_update)

lemma ctx_alloc_cong:
  assumes "ctx_alloc ctx" "rotors ctx' = rotors ctx" "inverse_rotors ctx' = inverse_rotors ctx"
    "plugboard ctx' = plugboard ctx" "aes ctx' = aes ctx" "length (key ctx') = length (key ctx)"
    "length (feedback ctx') = length (feedback ctx)"
    "length (initial_feedback ctx') = length (initial_feedback ctx)"
  shows "ctx_alloc ctx'"
  using assms by (simp add: ctx_alloc_def)

lemma positions_ok_cong:
  assumes "positions_ok ctx" "rotors ctx' = rotors ctx" "inverse_rotors ctx' = inverse_rotors ctx"
  shows "positions_ok ctx'"
  using assms by (simp add: positions_ok_def)

lemma encrypt_char_body_inv:
  assumes "ctx_alloc ctx" "positions_ok ctx"
  shows "ctx_alloc (snd (encrypt_char_body ctx x))" "positions_ok (snd (encrypt_char_body ctx x))"
proof -
  let ?c1 = "ctx\<lparr>encrypt_mode := True\<rparr>"
  have a1: "ctx_alloc ?c1" by (rule ctx_alloc_cong [OF assms(1)]) simp_all
  have p1: "positions_ok ?c1" by (rule positions_ok_cong [OF assms(2)]) simp_all
  note r = rotate_rotors_inv [OF a1 p1]
  show "ctx_alloc (snd (encrypt_char_body ctx x))"
    by (rule ctx_alloc_cong [OF r(1)])
      (use r(1) in \<open>simp_all add: encrypt_char_body_def Let_def rotate_rotors_frame ctx_alloc_def\<close>)
  show "positions_ok (snd (encrypt_char_body ctx x))"
    by (rule positions_ok_cong [OF r(2)]) (simp_all add: encrypt_char_body_def Let_def)
qed

lemma decrypt_char_body_inv:
  assumes "ctx_alloc ctx" "positions_ok ctx"
  shows "ctx_alloc (snd (decrypt_char_body ctx x))" "positions_ok (snd (decrypt_char_body ctx x))"
proof -
  let ?c2 = "ctx\<lparr>encrypt_mode := False,
     feedback := store_feedback (feedback ctx) (split_bytes x)\<rparr>"
  have a1: "ctx_alloc ?c2" by (rule ctx_alloc_cong [OF assms(1)]) simp_all
  have p1: "positions_ok ?c2" by (rule positions_ok_cong [OF assms(2)]) simp_all
  note r = rotate_rotors_inv [OF a1 p1]
  show "ctx_alloc (snd (decrypt_char_body ctx x))"
    using r(1) by (simp add: decrypt_char_body_def Let_def)
  show "positions_ok (snd (decrypt_char_body ctx x))"
    using r(2) by (simp add: decrypt_char_body_def Let_def)
qed

lemma char_inv:
  assumes "ctx_alloc ctx" "positions_ok ctx"
  shows "ctx_alloc (snd (encrypt_char ctx x))" "positions_ok (snd (encrypt_char ctx x))"
    "ctx_alloc (snd (decrypt_char ctx x))" "positions_ok (snd (decrypt_char ctx x))"
  using assms encrypt_char_body_inv [OF assms] decrypt_char_body_inv [OF assms]
  by (simp_all add: encrypt_char_def decrypt_char_def)

lemma chars_inv:
  assumes "ctx_alloc ctx" "positions_ok ctx"
  shows "ctx_alloc (snd (encrypt_chars ctx cs)) \<and> positions_ok (snd (encrypt_chars ctx cs))"
    "ctx_alloc (snd (decrypt_chars ctx cs)) \<and> positions_ok (snd (decrypt_chars ctx cs))"
  using assms
proof (induction cs arbitrary: ctx)
  case Nil
  { case 1 then show ?case by simp }
  { case 2 then show ?case by simp }
next
  case (Cons c cs)
  { case 1
    show ?case
      using Cons.IH(1) [of "snd (encrypt_char ctx c)"] char_inv(1,2) [OF 1, of c]
      by (simp add: case_prod_beta) }
  { case 2
    show ?case
      using Cons.IH(2) [of "snd (decrypt_char ctx c)"] char_inv(3,4) [OF 2, of c]
      by (simp add: case_prod_beta) }
qed


lemma update_feedback_frame:
  "rotors (update_feedback ctx b) = rotors ctx"
  "inverse_rotors (update_feedback ctx b) = inverse_rotors ctx"
  "plugboard (update_feedback ctx b) = plugboard ctx"
  "aes (update_feedback ctx b) = aes ctx"
  "key (update_feedback ctx b) = key ctx"
  "length (feedback (update_feedback ctx b)) = length (feedback ctx)"
  "initial_feedback (update_feedback ctx b) = initial_feedback ctx"
  "initialized (update_feedback ctx b) = initialized ctx"
  by (simp_all add: update_feedback_def length_fold_update)

lemma reachable_inv: "reachable ctx \<Longrightarrow> ctx_alloc ctx \<and> positions_ok ctx"
proof (induction rule: reachable.induct)
  case (reach_init ctx0 k)
  then show ?case by (simp add: init_context_alloc init_context_positions)
next
  case (reach_encrypt_char ctx x)
  then show ?case by (simp add: char_inv)
next
  case (reach_decrypt_char ctx x)
  then show ?case by (simp add: char_inv)
next
  case (reach_encrypt_block ctx input out ctx')
  then have "ctx' = ctx \<or> ctx' = update_feedback ctx (apply_aes_transformation ctx
      (map (\<lambda>i. take PROBLEMA_BLOCK_SIZE input ! i XOR feedback ctx ! i) [0..<PROBLEMA_BLOCK_SIZE]))"
    by (auto simp: problema_encrypt_block_def encrypt_block_def Let_def split: if_splits)
  with reach_encrypt_block.IH show ?case
    by (auto intro: ctx_alloc_cong positions_ok_cong simp: update_feedback_frame)
next
  case (reach_decrypt_block ctx input out ctx')
  then have "ctx' = ctx \<or> ctx' = update_feedback ctx (take PROBLEMA_BLOCK_SIZE input)"
    by (auto simp: problema_decrypt_block_def decrypt_block_def Let_def split: if_splits)
  with reach_decrypt_block.IH show ?case
    by (auto intro: ctx_alloc_cong positions_ok_cong simp: update_feedback_frame)
next
  case (reach_encrypt ctx inputp n res ctx')
  have e: "ctx_alloc (encrypt_entry ctx)" "positions_ok (encrypt_entry ctx)"
    using reach_encrypt.IH
    by (auto intro: ctx_alloc_cong positions_ok_cong simp: encrypt_entry_def ctx_alloc_def)
  from reach_encrypt.hyps(2)
  have "ctx' = ctx \<or> ctx' = encrypt_entry ctx
      \<or> (\<exists>cs. ctx' = snd (encrypt_chars (encrypt_entry ctx) cs))"
    by (auto simp: problema_encrypt_def Let_def split: if_splits option.splits sum.splits prod.splits)
      (metis snd_conv)
  with reach_encrypt.IH e chars_inv(1) [OF e] show ?case by auto
next
  case (reach_decrypt ctx inputp n res ctx')
  have e: "ctx_alloc (decrypt_entry ctx)" "positions_ok (decrypt_entry ctx)"
    using reach_decrypt.IH
    by (auto intro: ctx_alloc_cong positions_ok_cong simp: decrypt_entry_def ctx_alloc_def)
  from reach_decrypt.hyps(2)
  have "ctx' = ctx \<or> ctx' = decrypt_entry ctx
      \<or> (\<exists>cs. ctx' = snd (decrypt_chars (decrypt_entry ctx) cs))"
    by (auto simp: problema_decrypt_def Let_def split: if_splits option.splits sum.splits prod.splits)
      (metis snd_conv)
  with reach_decrypt.IH e chars_inv(2) [OF e] show ?case by auto
next
  case (reach_cleanup ctx ctx')
  then show ?case
    by (auto intro: ctx_alloc_cong positions_ok_cong simp: problema_cleanup_def ctx_alloc_def)
qed

lemma spec_advances_mono: "spec_advances ctx b \<Longrightarrow> a \<le> b \<Longrightarrow> spec_advances ctx a"
proof (induction b)
  case 0
  then show ?case by simp
next
  case (Suc b)
  then show ?case by (cases "a = Suc b") simp_all
qed

lemma rotate_carry_spec:
  assumes ok: "positions_ok ctx"
    and len: "length (rotors c) = 8" "length (inverse_rotors c) = 8"
    and adv: "spec_advances ctx a"
    and st: "\<And>i. i < 8 \<Longrightarrow>
        rotors c ! i = (if i \<le> a then (rotors ctx ! i)\<lparr>position := (position (rotors ctx ! i) + 1) mod 65536\<rparr>
                        else rotors ctx ! i)"
      "\<And>i. i < 8 \<Longrightarrow>
        inverse_rotors c ! i =
          (if i \<le> a then (inverse_rotors ctx ! i)\<lparr>position := (position (rotors ctx ! i) + 1) mod 65536\<rparr>
           else inverse_rotors ctx ! i)"
    and i: "i < 8"
  shows "rotors (rotate_carry [a..<7] c) ! i = (rotors ctx ! i)\<lparr>position := spec_position ctx i\<rparr>
       \<and> inverse_rotors (rotate_carry [a..<7] c) ! i
           = (inverse_rotors ctx ! i)\<lparr>position := spec_position ctx i\<rparr>"
  using len adv st
proof (induction "7 - a" arbitrary: a c)
  case 0
  then have "i \<le> a" using i by simp
  then have "spec_advances ctx i" using "0.prems"(3) spec_advances_mono by blast
  moreover have "[a..<7] = []" using 0 by simp
  ultimately show ?case
    using "0.prems"(4,5) [OF i] \<open>i \<le> a\<close> by (simp add: spec_position_def)
next
  case (Suc n)
  then have a: "a < 7" by simp
  then have l: "[a..<7] = a # [Suc a..<7]" by (simp add: upt_conv_Cons)
  have pa: "0 \<le> position (rotors ctx ! a)"
    using positions_okD(1) [OF ok, of a] a by (simp add: PROBLEMA_NUM_ROTORS_def)
  have ca: "rotors c ! a = (rotors ctx ! a)\<lparr>position := (position (rotors ctx ! a) + 1) mod 65536\<rparr>"
    using Suc.prems(4) [of a] a by simp
  have notch: "at_notch (rotors c ! a)
      \<longleftrightarrow> (position (rotors ctx ! a) + 1) mod 65536 \<in> notches (rotors ctx ! a)"
    by (simp add: ca at_notch_def notches_def)
  show ?case
  proof (cases "at_notch (rotors c ! a)")
    case True
    have p1: "0 \<le> position (rotors ctx ! Suc a)"
      using positions_okD(1) [OF ok, of "Suc a"] a by (simp add: PROBLEMA_NUM_ROTORS_def)
    have c1: "rotors c ! Suc a = rotors ctx ! Suc a" "inverse_rotors c ! Suc a = inverse_rotors ctx ! Suc a"
      using Suc.prems(4,5) [of "Suc a"] a by simp_all
    have "rotors (rotate_carry [Suc a..<7] (advance_rotor (Suc a) c)) ! i
            = (rotors ctx ! i)\<lparr>position := spec_position ctx i\<rparr>
        \<and> inverse_rotors (rotate_carry [Suc a..<7] (advance_rotor (Suc a) c)) ! i
            = (inverse_rotors ctx ! i)\<lparr>position := spec_position ctx i\<rparr>"
    proof (rule Suc.hyps(1))
      show "n = 7 - Suc a" using Suc.hyps(2) by simp
      show "length (rotors (advance_rotor (Suc a) c)) = 8"
        "length (inverse_rotors (advance_rotor (Suc a) c)) = 8"
        using Suc.prems(1,2) by (simp_all add: advance_rotor_frame)
      show "spec_advances ctx (Suc a)"
        using Suc.prems(3) True notch by simp
      fix j :: nat assume j: "j < 8"
      show "rotors (advance_rotor (Suc a) c) ! j =
          (if j \<le> Suc a then (rotors ctx ! j)\<lparr>position := (position (rotors ctx ! j) + 1) mod 65536\<rparr>
           else rotors ctx ! j)"
        using Suc.prems(1) Suc.prems(4) [OF j] a c1 p1
        by (auto simp: advance_rotor_nth smod_nonneg le_Suc_eq)
      show "inverse_rotors (advance_rotor (Suc a) c) ! j =
          (if j \<le> Suc a
           then (inverse_rotors ctx ! j)\<lparr>position := (position (rotors ctx ! j) + 1) mod 65536\<rparr>
           else inverse_rotors ctx ! j)"
        using Suc.prems(2) Suc.prems(5) [OF j] a c1 p1
        by (auto simp: advance_rotor_nth smod_nonneg le_Suc_eq)
    qed
    then show ?thesis using True l by simp
  next
    case False
    then have nadv: "\<not> spec_advances ctx (Suc a)" using notch by simp
    have res: "rotate_carry [a..<7] c = c" using False l by simp
    show ?thesis
    proof (cases "i \<le> a")
      case True
      then have "spec_advances ctx i" using Suc.prems(3) spec_advances_mono by blast
      then show ?thesis using Suc.prems(4,5) [OF i] True res by (simp add: spec_position_def)
    next
      case False
      then have "Suc a \<le> i" by simp
      then have "\<not> spec_advances ctx i" using nadv spec_advances_mono by blast
      moreover have "position (inverse_rotors ctx ! i) = position (rotors ctx ! i)"
        using positions_okD(3) [OF ok, of i] i by (simp add: PROBLEMA_NUM_ROTORS_def)
      ultimately show ?thesis
        using Suc.prems(4,5) [OF i] False res by (simp add: spec_position_def)
    qed
  qed
qed


lemma rotate_rotors_nth:
  assumes al: "ctx_alloc ctx" and ok: "positions_ok ctx" and r: "r < PROBLEMA_NUM_ROTORS"
  shows "rotors (rotate_rotors ctx) ! r = (rotors ctx ! r)\<lparr>position := spec_position ctx r\<rparr>"
    "inverse_rotors (rotate_rotors ctx) ! r
       = (inverse_rotors ctx ! r)\<lparr>position := spec_position ctx r\<rparr>"
proof -
  have len: "length (rotors ctx) = 8" "length (inverse_rotors ctx) = 8"
    using al by (simp_all add: ctx_alloc_def PROBLEMA_NUM_ROTORS_def)
  have p0: "0 \<le> position (rotors ctx ! 0)"
    using positions_okD(1) [OF ok, of 0] by (simp add: PROBLEMA_NUM_ROTORS_def)
  have r8: "r < 8" using r by (simp add: PROBLEMA_NUM_ROTORS_def)
  have "rotors (rotate_carry [0..<7] (advance_rotor 0 ctx)) ! r
          = (rotors ctx ! r)\<lparr>position := spec_position ctx r\<rparr>
      \<and> inverse_rotors (rotate_carry [0..<7] (advance_rotor 0 ctx)) ! r
          = (inverse_rotors ctx ! r)\<lparr>position := spec_position ctx r\<rparr>"
  proof (rule rotate_carry_spec [OF ok _ _ _ _ _ r8])
    show "length (rotors (advance_rotor 0 ctx)) = 8"
      "length (inverse_rotors (advance_rotor 0 ctx)) = 8"
      using len by (simp_all add: advance_rotor_frame)
    show "spec_advances ctx 0" by simp
    fix i :: nat assume "i < 8"
    show "rotors (advance_rotor 0 ctx) ! i =
        (if i \<le> 0 then (rotors ctx ! i)\<lparr>position := (position (rotors ctx ! i) + 1) mod 65536\<rparr>
         else rotors ctx ! i)"
      using len p0 by (auto simp: advance_rotor_nth smod_nonneg)
    show "inverse_rotors (advance_rotor 0 ctx) ! i =
        (if i \<le> 0
         then (inverse_rotors ctx ! i)\<lparr>position := (position (rotors ctx ! i) + 1) mod 65536\<rparr>
         else inverse_rotors ctx ! i)"
      using len p0 by (auto simp: advance_rotor_nth smod_nonneg)
  qed
  then show "rotors (rotate_rotors ctx) ! r = (rotors ctx ! r)\<lparr>position := spec_position ctx r\<rparr>"
    "inverse_rotors (rotate_rotors ctx) ! r
       = (inverse_rotors ctx ! r)\<lparr>position := spec_position ctx r\<rparr>"
    by (simp_all add: rotate_rotors_def PROBLEMA_NUM_ROTORS_def)
qed

lemma zero_context_alloc: "ctx_alloc zero_context"
  by (simp add: ctx_alloc_def zero_context_def zero_rotor_def rotor_alloc_def list_all_iff)

lemma length_key0: "length (replicate 32 (0::byte_t)) = PROBLEMA_KEY_SIZE"
  by (simp add: PROBLEMA_KEY_SIZE_def)

lemma advance_rotor_commute:
  "advance_rotor r (c\<lparr>encrypt_mode := b\<rparr>) = (advance_rotor r c)\<lparr>encrypt_mode := b\<rparr>"
  "advance_rotor r (c\<lparr>feedback := f\<rparr>) = (advance_rotor r c)\<lparr>feedback := f\<rparr>"
  by (simp_all add: advance_rotor_def Let_def)

lemma rotate_carry_commute:
  "rotate_carry rs (c\<lparr>encrypt_mode := b\<rparr>) = (rotate_carry rs c)\<lparr>encrypt_mode := b\<rparr>"
  "rotate_carry rs (c\<lparr>feedback := f\<rparr>) = (rotate_carry rs c)\<lparr>feedback := f\<rparr>"
  by (induction rs arbitrary: c; simp add: advance_rotor_commute)+

lemma rotate_rotors_commute:
  "rotate_rotors (c\<lparr>encrypt_mode := b\<rparr>) = (rotate_rotors c)\<lparr>encrypt_mode := b\<rparr>"
  "rotate_rotors (c\<lparr>feedback := f\<rparr>) = (rotate_rotors c)\<lparr>feedback := f\<rparr>"
  by (simp_all add: rotate_rotors_def advance_rotor_commute rotate_carry_commute)

lemma encrypt_char_body_rotors:
  "rotors (snd (encrypt_char_body ctx x)) = rotors (rotate_rotors ctx)"
  "inverse_rotors (snd (encrypt_char_body ctx x)) = inverse_rotors (rotate_rotors ctx)"
  "initialized (snd (encrypt_char_body ctx x)) = initialized ctx"
  by (simp_all add: encrypt_char_body_def Let_def rotate_rotors_commute rotate_rotors_frame)

lemma decrypt_char_body_rotors:
  "rotors (snd (decrypt_char_body ctx x)) = rotors (rotate_rotors ctx)"
  "inverse_rotors (snd (decrypt_char_body ctx x)) = inverse_rotors (rotate_rotors ctx)"
  "initialized (snd (decrypt_char_body ctx x)) = initialized ctx"
  by (simp_all add: decrypt_char_body_def Let_def rotate_rotors_commute rotate_rotors_frame)

lemma call_char_step:
  assumes "ctx_alloc ctx" "positions_ok ctx" "initialized ctx"
  shows "position (rotors (call_char ctx call) ! 0) = (position (rotors ctx ! 0) + 1) mod 65536"
    "initialized (call_char ctx call)"
    "ctx_alloc (call_char ctx call)" "positions_ok (call_char ctx call)"
proof -
  have 0: "0 < PROBLEMA_NUM_ROTORS" by (simp add: PROBLEMA_NUM_ROTORS_def)
  have "position (rotors (rotate_rotors ctx) ! 0) = (position (rotors ctx ! 0) + 1) mod 65536"
    using rotate_rotors_nth(1) [OF assms(1,2) 0] by (simp add: spec_position_def)
  then show "position (rotors (call_char ctx call) ! 0) = (position (rotors ctx ! 0) + 1) mod 65536"
    using assms(3)
    by (cases call)
      (simp_all add: encrypt_char_def decrypt_char_def encrypt_char_body_rotors
        decrypt_char_body_rotors)
  show "initialized (call_char ctx call)"
    using assms(3)
    by (cases call)
      (simp_all add: encrypt_char_def decrypt_char_def encrypt_char_body_rotors
        decrypt_char_body_rotors)
  show "ctx_alloc (call_char ctx call)" "positions_ok (call_char ctx call)"
    using char_inv [OF assms(1,2)] by (cases call; simp)+
qed

lemma call_chars_position:
  assumes "ctx_alloc ctx" "positions_ok ctx" "initialized ctx"
  shows "position (rotors (call_chars ctx calls) ! 0)
           = (position (rotors ctx ! 0) + int (length calls)) mod 65536"
  using assms
proof (induction calls arbitrary: ctx)
  case Nil
  have "0 \<le> position (rotors ctx ! 0)" "position (rotors ctx ! 0) < 65536"
    using positions_okD(1,2) [OF Nil(2), of 0] by (simp_all add: PROBLEMA_NUM_ROTORS_def)
  then show ?case by (simp add: call_chars_def)
next
  case (Cons call calls)
  note st = call_char_step [OF Cons.prems, of call]
  have "position (rotors (call_chars (call_char ctx call) calls) ! 0)
      = ((position (rotors ctx ! 0) + 1) mod 65536 + int (length calls)) mod 65536"
    using Cons.IH [OF st(3,4,2)] st(1) by simp
  also have "\<dots> = (position (rotors ctx ! 0) + int (length (call # calls))) mod 65536"
    by simp presburger
  finally show ?case by (simp add: call_chars_def)
qed

lemma init_key0_position:
  "position (rotors (init_context zero_context (replicate 32 0)) ! 0) = 0"
proof -
  have 0: "0 < PROBLEMA_NUM_ROTORS" by (simp add: PROBLEMA_NUM_ROTORS_def)
  have "length (rotors zero_context) = PROBLEMA_NUM_ROTORS"
    by (simp add: zero_context_def)
  then show ?thesis
    using 0 by (simp add: init_context_rotors init_rotor_fields PROBLEMA_KEY_SIZE_def)
qed

lemma utf8_to_unicode_empty: "utf8_to_unicode [] n = Inr []"
  by (simp add: utf8_to_unicode_def)

lemma upt_4: "[0..<4] = [0, 1, 2, 3::nat]"
  by (simp add: upt_rec)

lemma upt_16: "[0..<16] = [0, 1, 2, 3, 4, 5, 6, 7, 8, 9, 10, 11, 12, 13, 14, 15::nat]"
  by (simp add: upt_rec)

lemma replicate_16: "replicate 16 c = [c, c, c, c, c, c, c, c, c, c, c, c, c, c, c, c]"
  by (simp add: numeral_eq_Suc)

lemma aes_forward_constant:
  "apply_aes_transformation ctx (replicate 16 c)
     = map (\<lambda>i. round_keys (aes ctx) ! 0 ! i) [0..<16]"
  by (simp add: apply_aes_transformation_def PROBLEMA_BLOCK_SIZE_def Let_def upt_4 upt_16 replicate_16)


lemma length_aes_transformation [simp]:
  "length (apply_aes_transformation ctx b) = 16"
  "length (apply_inverse_aes_transformation ctx b) = 16"
  by (simp_all add: apply_aes_transformation_def apply_inverse_aes_transformation_def
      PROBLEMA_BLOCK_SIZE_def Let_def)

lemma xor_zero_feedback:
  assumes "length xs = 16"
  shows "map (\<lambda>i. xs ! i XOR replicate 16 (0::byte_t) ! i) [0..<16] = xs"
  using assms by (intro nth_equalityI) simp_all

lemma encrypt_block_fresh:
  assumes "feedback ctx = replicate 16 0" "length b = 16"
  shows "fst (encrypt_block ctx b) = apply_aes_transformation ctx b"
  using assms xor_zero_feedback [of b]
  by (simp add: encrypt_block_def Let_def PROBLEMA_BLOCK_SIZE_def)

lemma decrypt_block_fresh:
  assumes "feedback ctx = replicate 16 0" "length c = 16"
  shows "fst (decrypt_block ctx c) = apply_inverse_aes_transformation ctx c"
  using assms xor_zero_feedback [of "apply_inverse_aes_transformation ctx c"]
  by (simp add: decrypt_block_def Let_def PROBLEMA_BLOCK_SIZE_def)

lemma block_mode_fresh:
  assumes "initialized ctx" "feedback ctx = replicate 16 0" "length b = 16"
  shows "\<exists>ctx'. problema_encrypt_block (Some ctx) b
                  = (Some (apply_aes_transformation ctx b), Some ctx')"
    "fst (problema_decrypt_block (Some ctx) (apply_aes_transformation ctx b))
       = Some (apply_inverse_aes_transformation ctx (apply_aes_transformation ctx b))"
  using assms encrypt_block_fresh [OF assms(2,3)]
    decrypt_block_fresh [OF assms(2), of "apply_aes_transformation ctx b"]
  by (auto simp: problema_encrypt_block_def problema_decrypt_block_def split: prod.splits)

lemma distinct_identity_table:
  assumes "n \<le> 2 ^ LENGTH('a::len)"
  shows "distinct (identity_table n :: 'a word list)"
proof -
  have "inj_on (of_nat :: nat \<Rightarrow> 'a word) {..<n}"
  proof (rule inj_onI)
    fix x y assume "x \<in> {..<n}" "y \<in> {..<n}" "(of_nat x :: 'a word) = of_nat y"
    then have "unat (of_nat x :: 'a word) = unat (of_nat y :: 'a word)" by simp
    moreover have "x < 2 ^ LENGTH('a)" "y < 2 ^ LENGTH('a)"
      using \<open>x \<in> {..<n}\<close> \<open>y \<in> {..<n}\<close> assms by auto
    ultimately show "x = y" by (simp add: unat_of_nat)
  qed
  then show ?thesis
    by (simp add: identity_table_def distinct_map atLeast0LessThan)
qed

lemma unat_set_identity_table:
  assumes "n \<le> 2 ^ LENGTH('a::len)"
  shows "unat ` set (identity_table n :: 'a word list) = {..<n}"
proof -
  have "unat (of_nat i :: 'a word) = i" if "i < n" for i
    using that assms by (simp add: unat_of_nat)
  then have "unat ` (of_nat :: nat \<Rightarrow> 'a word) ` {..<n} = {..<n}"
    by (force simp: image_iff)
  then show ?thesis
    by (simp add: identity_table_def atLeast0LessThan)
qed

text \<open>A table that is a rearrangement of the identity table is a bijection on its
  index range.\<close>

lemma permuted_table_bij:
  fixes m :: "'a::len word list"
  assumes "mset m = mset (identity_table n)" "n \<le> 2 ^ LENGTH('a)"
  shows "length m = n" "distinct m" "bij_betw (\<lambda>i. unat (m ! i)) {..<n} {..<n}"
    "\<And>i. i < n \<Longrightarrow> unat (m ! i) < n"
proof -
  show len: "length m = n"
    using mset_eq_length [OF assms(1)] by simp
  show dis: "distinct m"
    using assms mset_eq_imp_distinct_iff [OF assms(1)] distinct_identity_table [OF assms(2)]
    by simp
  have set: "unat ` set m = {..<n}"
    using mset_eq_setD [OF assms(1)] unat_set_identity_table [OF assms(2)] by simp
  have "inj_on (\<lambda>i. unat (m ! i)) {..<n}"
  proof (rule inj_onI)
    fix x y assume "x \<in> {..<n}" "y \<in> {..<n}" "unat (m ! x) = unat (m ! y)"
    then show "x = y" using dis len by (simp add: nth_eq_iff_index_eq word_unat_eq_iff [symmetric])
  qed
  moreover have "(\<lambda>i. unat (m ! i)) ` {..<n} = {..<n}"
  proof -
    have "(\<lambda>i. unat (m ! i)) ` {..<n} = unat ` (nth m ` {..<length m})"
      using len by (simp add: image_image)
    also have "nth m ` {..<length m} = set m"
      by (simp add: set_conv_nth image_def Bex_def conj_commute cong: conj_cong)
    finally show ?thesis using set by simp
  qed
  ultimately show "bij_betw (\<lambda>i. unat (m ! i)) {..<n} {..<n}"
    by (simp add: bij_betw_def)
  then show "\<And>i. i < n \<Longrightarrow> unat (m ! i) < n"
    using bij_betwE by fastforce
qed

lemma invert_table_nth:
  fixes m :: "'a::len word list"
  assumes "distinct m" "n \<le> length m" "\<And>i. i < n \<Longrightarrow> unat (m ! i) < length tbl"
    "n \<le> 2 ^ LENGTH('a)" "i < n"
  shows "invert_table n m tbl ! unat (m ! i) = of_nat i"
  using assms(2,3,4,5)
proof (induction n arbitrary: i)
  case 0
  then show ?case by simp
next
  case (Suc n)
  have eq: "invert_table (Suc n) m tbl = (invert_table n m tbl)[unat (m ! n) := of_nat n]"
    by (simp add: invert_table_def)
  show ?case
  proof (cases "i = n")
    case True
    then show ?thesis using Suc.prems(2) [of n] by (simp add: eq)
  next
    case False
    then have i: "i < n" using Suc.prems(4) by simp
    have "m ! i \<noteq> m ! n"
      using assms(1) Suc.prems(1) i by (simp add: nth_eq_iff_index_eq)
    then have "unat (m ! i) \<noteq> unat (m ! n)" by (simp add: word_unat_eq_iff)
    moreover have "invert_table n m tbl ! unat (m ! i) = of_nat i"
      using Suc.IH [of i] Suc.prems i by simp
    ultimately show ?thesis by (simp add: eq)
  qed
qed

lemma rotor_size_le: "PROBLEMA_ROTOR_SIZE \<le> 2 ^ LENGTH(32)"
  by (simp add: PROBLEMA_ROTOR_SIZE_def)

lemma sbox_size_le: "PROBLEMA_SBOX_SIZE \<le> 2 ^ LENGTH(8)"
  by (simp add: PROBLEMA_SBOX_SIZE_def)

lemma init_rotor_mapping_mset:
  "mset (mapping (init_rotor k r old)) = mset (identity_table PROBLEMA_ROTOR_SIZE)"
  by (simp add: init_rotor_def Let_def mset_shuffle_down rotor_shuffle_index_le
      PROBLEMA_ROTOR_SIZE_def)

lemma init_sbox_mset:
  "mset (sbox (aes (init_aes_components ctx))) = mset (identity_table PROBLEMA_SBOX_SIZE)"
  by (simp add: init_aes_components_def Let_def mset_shuffle_down sbox_shuffle_index_le
      PROBLEMA_SBOX_SIZE_def)


lemma init_context_sbox:
  "sbox (aes (init_context ctx k))
     = shuffle_down (sbox_shuffle_index (take PROBLEMA_KEY_SIZE k)) (PROBLEMA_SBOX_SIZE - 1)
         (identity_table PROBLEMA_SBOX_SIZE)"
  "inv_sbox (aes (init_context ctx k))
     = invert_table PROBLEMA_SBOX_SIZE (sbox (aes (init_context ctx k))) (inv_sbox (aes ctx))"
  "round_keys (aes (init_context ctx k)) ! 0 = map (\<lambda>i. take PROBLEMA_KEY_SIZE k ! i) [0..<16]"
  by (simp_all add: init_context_def Let_def init_aes_components_def init_plugboard_def
      init_rotors_def init_rotors_fold_frame PROBLEMA_NUM_ROUNDS_def PROBLEMA_BLOCK_SIZE_def
      PROBLEMA_KEY_SIZE_def upt_rec [of 0 15])

lemma init_context_sbox_mset:
  "mset (sbox (aes (init_context ctx k))) = mset (identity_table PROBLEMA_SBOX_SIZE)"
  by (simp add: init_context_sbox mset_shuffle_down sbox_shuffle_index_le PROBLEMA_SBOX_SIZE_def)

lemma init_rotor_inverse:
  assumes "length (mapping old) = PROBLEMA_ROTOR_SIZE" "i < PROBLEMA_ROTOR_SIZE"
  shows "mapping (init_inverse_rotor (init_rotor k r old') old)
           ! unat (mapping (init_rotor k r old') ! i) = of_nat i"
proof -
  have "mset (mapping (init_rotor k r old')) = mset (identity_table PROBLEMA_ROTOR_SIZE)"
    by (rule init_rotor_mapping_mset)
  note p = permuted_table_bij [OF this rotor_size_le]
  show ?thesis
    unfolding init_inverse_rotor_def
    using p(1,2,4) assms rotor_size_le by (simp add: invert_table_nth)
qed

lemma drop_bit_eq_0_unat:
  fixes c :: "'a::len word"
  shows "drop_bit n c = 0 \<longleftrightarrow> unat c < 2 ^ n"
proof -
  have "unat (drop_bit n c) = unat c div 2 ^ n"
    by (subst unat_drop_bit_eq) (simp add: drop_bit_eq_div)
  then show ?thesis
    by (simp add: word_unat_eq_iff div_eq_0_iff)
qed

lemma less_65536_iff: "(c :: 32 word) < 65536 \<longleftrightarrow> drop_bit 16 c = 0"
  by (simp add: drop_bit_eq_0_unat word_less_nat_alt)

lemma le_FFFF_iff: "(c :: 32 word) \<le> 0xFFFF \<longleftrightarrow> c < 65536"
  by (simp add: word_le_nat_alt word_less_nat_alt) arith

lemma lt8_cases:
  "n < 8 \<Longrightarrow> n = (7::nat) \<or> n = 6 \<or> n = 5 \<or> n = 4 \<or> n = 3 \<or> n = 2 \<or> n = 1 \<or> n = 0"
  by arith

lemma lt32_cases:
  "n < 32 \<Longrightarrow> n = (31::nat) \<or> n = 30 \<or> n = 29 \<or> n = 28 \<or> n = 27
     \<or> n = 26 \<or> n = 25 \<or> n = 24 \<or> n = 23 \<or> n = 22 \<or> n = 21 \<or> n = 20
     \<or> n = 19 \<or> n = 18 \<or> n = 17 \<or> n = 16 \<or> n = 15 \<or> n = 14 \<or> n = 13
     \<or> n = 12 \<or> n = 11 \<or> n = 10 \<or> n = 9 \<or> n = 8 \<or> n < 8"
  by arith

lemma split_bytes_bmp:
  assumes "y < 65536"
  shows "split_bytes y ! 0 = 0" "split_bytes y ! Suc 0 = 0"
proof -
  have d: "drop_bit 16 y = 0" using assms by (simp add: less_65536_iff)
  have "drop_bit 24 y = drop_bit 8 (drop_bit 16 y)" by (simp add: drop_bit_drop_bit)
  then show "split_bytes y ! 0 = 0" "split_bytes y ! Suc 0 = 0"
    using d by (simp_all add: split_bytes_def)
qed

lemma join_bytes_bmp: "join_bytes [0, 0, a, b] < 65536"
  unfolding less_65536_iff join_bytes_def
  by (rule bit_word_eqI) (auto simp: bit_simps dest!: lt32_cases lt8_cases dest: bit_imp_le_length)

lemma join_bytes_plane1: "\<not> join_bytes [0, 1, a, b] < 65536"
proof
  assume "join_bytes [0, 1, a, b] < 65536"
  then have "drop_bit 16 (join_bytes [0, 1, a, b]) = 0" by (simp add: less_65536_iff)
  then have "bit (drop_bit 16 (join_bytes [0, 1, a, b])) 0 = False" by simp
  then show False by (simp add: join_bytes_def bit_simps)
qed


lemma mset_plug_fold:
  assumes "\<And>i. f i < length m" "\<And>i. g i < length m"
  shows "mset (fold (\<lambda>i m. swap_at m (f i) (g i)) xs m) = mset m"
  using assms by (induction xs arbitrary: m) (simp_all add: mset_swap_at)

lemma init_context_plugboard:
  "plugboard (init_context ctx k)
     = fold (\<lambda>i m. swap_at m (plug_index (take PROBLEMA_KEY_SIZE k) i)
                              (plug_index (take PROBLEMA_KEY_SIZE k) (i + 2)))
         [0..<(unat (take PROBLEMA_KEY_SIZE k ! 0) mod 100) + 50]
         (identity_table PROBLEMA_ROTOR_SIZE)"
  by (simp add: init_context_def Let_def init_aes_components_def init_plugboard_def
      init_rotors_def init_rotors_fold_frame)

lemma plug_index_less: "plug_index k i < PROBLEMA_ROTOR_SIZE"
  by (simp add: plug_index_def PROBLEMA_ROTOR_SIZE_def)

lemma init_context_plugboard_mset:
  "mset (plugboard (init_context ctx k)) = mset (identity_table PROBLEMA_ROTOR_SIZE)"
  unfolding init_context_plugboard
  by (rule mset_plug_fold) (simp_all add: plug_index_less)

lemma encrypt_char_frame:
  "plugboard (snd (encrypt_char ctx x)) = plugboard ctx"
  "initialized (snd (encrypt_char ctx x)) = initialized ctx"
  "aes (snd (encrypt_char ctx x)) = aes ctx"
  "key (snd (encrypt_char ctx x)) = key ctx"
  by (simp_all add: encrypt_char_def encrypt_char_body_def Let_def rotate_rotors_frame)

lemma decrypt_char_frame:
  "plugboard (snd (decrypt_char ctx x)) = plugboard ctx"
  "initialized (snd (decrypt_char ctx x)) = initialized ctx"
  "aes (snd (decrypt_char ctx x)) = aes ctx"
  "key (snd (decrypt_char ctx x)) = key ctx"
  by (simp_all add: decrypt_char_def decrypt_char_body_def Let_def rotate_rotors_frame)

lemma chars_frame:
  "plugboard (snd (encrypt_chars ctx cs)) = plugboard ctx"
  "initialized (snd (encrypt_chars ctx cs)) = initialized ctx"
  "plugboard (snd (decrypt_chars ctx cs)) = plugboard ctx"
  "initialized (snd (decrypt_chars ctx cs)) = initialized ctx"
  by (induction cs arbitrary: ctx;
      simp add: case_prod_beta encrypt_char_frame decrypt_char_frame)+

lemma reachable_plugboard:
  "reachable ctx \<Longrightarrow> mset (plugboard ctx) = mset (identity_table PROBLEMA_ROTOR_SIZE)"
proof (induction rule: reachable.induct)
  case (reach_init ctx0 k)
  then show ?case by (simp add: init_context_plugboard_mset)
next
  case (reach_encrypt_char ctx x)
  then show ?case by (simp add: encrypt_char_frame)
next
  case (reach_decrypt_char ctx x)
  then show ?case by (simp add: decrypt_char_frame)
next
  case (reach_encrypt_block ctx input out ctx')
  then have "plugboard ctx' = plugboard ctx"
    by (auto simp: problema_encrypt_block_def encrypt_block_def Let_def update_feedback_frame
        split: if_splits)
  with reach_encrypt_block.IH show ?case by simp
next
  case (reach_decrypt_block ctx input out ctx')
  then have "plugboard ctx' = plugboard ctx"
    by (auto simp: problema_decrypt_block_def decrypt_block_def Let_def update_feedback_frame
        split: if_splits)
  with reach_decrypt_block.IH show ?case by simp
next
  case (reach_encrypt ctx inputp n res ctx')
  from reach_encrypt.hyps(2)
  have "ctx' = ctx \<or> ctx' = encrypt_entry ctx
      \<or> (\<exists>cs. ctx' = snd (encrypt_chars (encrypt_entry ctx) cs))"
    by (auto simp: problema_encrypt_def Let_def split: if_splits option.splits sum.splits prod.splits)
      (metis snd_conv)
  then have "plugboard ctx' = plugboard ctx"
    by (auto simp: chars_frame encrypt_entry_def)
  with reach_encrypt.IH show ?case by simp
next
  case (reach_decrypt ctx inputp n res ctx')
  from reach_decrypt.hyps(2)
  have "ctx' = ctx \<or> ctx' = decrypt_entry ctx
      \<or> (\<exists>cs. ctx' = snd (decrypt_chars (decrypt_entry ctx) cs))"
    by (auto simp: problema_decrypt_def Let_def split: if_splits option.splits sum.splits prod.splits)
      (metis snd_conv)
  then have "plugboard ctx' = plugboard ctx"
    by (auto simp: chars_frame decrypt_entry_def)
  with reach_decrypt.IH show ?case by simp
next
  case (reach_cleanup ctx ctx')
  then show ?case by (auto simp: problema_cleanup_def)
qed

lemma plugboard_bmp:
  assumes "mset (plugboard ctx) = mset (identity_table PROBLEMA_ROTOR_SIZE)" "x < 65536"
  shows "apply_plugboard ctx x < 65536"
proof -
  note p = permuted_table_bij [OF assms(1) rotor_size_le]
  have "unat x < PROBLEMA_ROTOR_SIZE"
    using assms(2) by (simp add: word_less_nat_alt PROBLEMA_ROTOR_SIZE_def)
  then have "unat (plugboard ctx ! unat x) < PROBLEMA_ROTOR_SIZE" by (rule p(4))
  then show ?thesis
    using assms(2) by (simp add: apply_plugboard_def word_less_nat_alt PROBLEMA_ROTOR_SIZE_def)
qed

lemma rotor_step_bmp:
  "rotor_forward_step rot y < 65536" "rotor_backward_step rot y < 65536"
  by (simp_all add: rotor_forward_step_def rotor_backward_step_def Let_def word_mod_less_divisor)

lemma apply_rotors_bmp:
  assumes "y < 65536"
  shows "apply_rotors_forward ctx y < 65536" "apply_rotors_backward ctx y < 65536"
proof -
  have f: "[0..<PROBLEMA_NUM_ROTORS] = [0..<7] @ [7]"
    by (simp add: PROBLEMA_NUM_ROTORS_def upt_rec)
  have b: "rev [0..<PROBLEMA_NUM_ROTORS] = rev [1..<8] @ [0]"
    by (simp add: PROBLEMA_NUM_ROTORS_def upt_rec)
  show "apply_rotors_forward ctx y < 65536"
    using assms unfolding apply_rotors_forward_def f
    by (simp add: rotor_step_bmp)
  show "apply_rotors_backward ctx y < 65536"
    using assms unfolding apply_rotors_backward_def b
    by (simp add: rotor_step_bmp)
qed


lemma xor_feedback_eq:
  "xor_feedback fb bs = [bs ! 0 XOR fb ! 0, bs ! 1 XOR fb ! 1, bs ! 2 XOR fb ! 2, bs ! 3 XOR fb ! 3]"
  by (simp add: xor_feedback_def upt_4 PROBLEMA_BLOCK_SIZE_def)

lemma store_feedback_eq:
  "store_feedback fb bs = fb[0 := bs ! 0, 1 := bs ! 1, 2 := bs ! 2, 3 := bs ! 3]"
  by (simp add: store_feedback_def upt_4 PROBLEMA_BLOCK_SIZE_def)

lemma store_feedback_nth:
  assumes "length fb = PROBLEMA_BLOCK_SIZE"
  shows "store_feedback fb [a, b, c, d] ! 0 = a" "store_feedback fb [a, b, c, d] ! Suc 0 = b"
    "store_feedback fb [a, b, c, d] ! 2 = c" "store_feedback fb [a, b, c, d] ! 3 = d"
  using assms by (simp_all add: store_feedback_eq PROBLEMA_BLOCK_SIZE_def)

text \<open>The code point that enters the feedback stage of \<open>problema_encrypt_char\<close>.\<close>

lemma encrypt_char_feedback_stage:
  assumes "initialized ctx"
  shows "\<exists>y. (x < 65536 \<and> mset (plugboard ctx) = mset (identity_table PROBLEMA_ROTOR_SIZE)
                \<longrightarrow> y < 65536)
           \<and> (65536 \<le> x \<longrightarrow> y = x)
           \<and> fst (encrypt_char ctx x) = join_bytes (xor_feedback (feedback ctx) (split_bytes y))
           \<and> feedback (snd (encrypt_char ctx x))
               = store_feedback (feedback ctx) (xor_feedback (feedback ctx) (split_bytes y))"
proof -
  let ?c1 = "ctx\<lparr>encrypt_mode := True\<rparr>"
  let ?y = "apply_rotors_backward (rotate_rotors ?c1)
              (apply_rotors_forward ?c1 (apply_plugboard ?c1 x))"
  have 1: "x < 65536 \<and> mset (plugboard ctx) = mset (identity_table PROBLEMA_ROTOR_SIZE)
             \<longrightarrow> ?y < 65536"
    using plugboard_bmp [of ?c1 x] by (auto intro!: apply_rotors_bmp)
  have 2: "65536 \<le> x \<longrightarrow> ?y = x"
    by (auto simp: apply_plugboard_def apply_rotors_forward_def apply_rotors_backward_def)
  have 3: "fst (encrypt_char ctx x) = join_bytes (xor_feedback (feedback ctx) (split_bytes ?y))"
    "feedback (snd (encrypt_char ctx x))
       = store_feedback (feedback ctx) (xor_feedback (feedback ctx) (split_bytes ?y))"
    using assms
    by (simp_all add: encrypt_char_def encrypt_char_body_def Let_def rotate_rotors_frame)
  show ?thesis using 1 2 3 by blast
qed

lemma split_bytes_eq:
  "split_bytes y = [split_bytes y ! 0, split_bytes y ! 1, split_bytes y ! 2, split_bytes y ! 3]"
  by (simp add: split_bytes_def)

lemma encrypt_char_bmp:
  assumes "initialized ctx" "length (feedback ctx) = PROBLEMA_BLOCK_SIZE"
    "mset (plugboard ctx) = mset (identity_table PROBLEMA_ROTOR_SIZE)"
    "feedback ctx ! 0 = 0" "x < 65536"
  shows "feedback ctx ! Suc 0 = 0 \<Longrightarrow> fst (encrypt_char ctx x) < 65536"
    "feedback ctx ! Suc 0 = 0 \<Longrightarrow> feedback (snd (encrypt_char ctx x)) ! 0 = 0"
    "feedback ctx ! Suc 0 = 0 \<Longrightarrow> feedback (snd (encrypt_char ctx x)) ! Suc 0 = 0"
    "feedback ctx ! Suc 0 = 1 \<Longrightarrow> \<not> fst (encrypt_char ctx x) < 65536"
proof -
  obtain y where y: "y < 65536"
    "fst (encrypt_char ctx x) = join_bytes (xor_feedback (feedback ctx) (split_bytes y))"
    "feedback (snd (encrypt_char ctx x))
       = store_feedback (feedback ctx) (xor_feedback (feedback ctx) (split_bytes y))"
    using encrypt_char_feedback_stage [OF assms(1), of x] assms(3,5) by blast
  note sb = split_bytes_bmp [OF y(1)]
  let ?a = "split_bytes y ! 2 XOR feedback ctx ! 2"
  let ?b = "split_bytes y ! 3 XOR feedback ctx ! 3"
  have x0: "feedback ctx ! Suc 0 = 0 \<Longrightarrow>
      xor_feedback (feedback ctx) (split_bytes y) = [0, 0, ?a, ?b]"
    using sb assms(4) by (simp add: xor_feedback_eq)
  have x1: "feedback ctx ! Suc 0 = 1 \<Longrightarrow>
      xor_feedback (feedback ctx) (split_bytes y) = [0, 1, ?a, ?b]"
    using sb assms(4) by (simp add: xor_feedback_eq)
  show "feedback ctx ! Suc 0 = 0 \<Longrightarrow> fst (encrypt_char ctx x) < 65536"
    by (simp add: y(2) x0 join_bytes_bmp)
  show "feedback ctx ! Suc 0 = 0 \<Longrightarrow> feedback (snd (encrypt_char ctx x)) ! 0 = 0"
    by (simp add: y(3) x0 store_feedback_nth [OF assms(2)])
  show "feedback ctx ! Suc 0 = 0 \<Longrightarrow> feedback (snd (encrypt_char ctx x)) ! Suc 0 = 0"
    by (simp add: y(3) x0 store_feedback_nth [OF assms(2)])
  show "feedback ctx ! Suc 0 = 1 \<Longrightarrow> \<not> fst (encrypt_char ctx x) < 65536"
    by (simp add: y(2) x1 join_bytes_plane1)
qed

lemma encrypt_char_length_feedback:
  "length (feedback (snd (encrypt_char ctx x))) = length (feedback ctx)"
  by (simp add: encrypt_char_def encrypt_char_body_def Let_def rotate_rotors_frame)

lemma encrypt_chars_bmp:
  assumes "initialized ctx" "length (feedback ctx) = PROBLEMA_BLOCK_SIZE"
    "mset (plugboard ctx) = mset (identity_table PROBLEMA_ROTOR_SIZE)"
    "feedback ctx ! 0 = 0" "feedback ctx ! Suc 0 = 0"
    "i < length cs" "\<And>j. j \<le> i \<Longrightarrow> cs ! j < 65536"
  shows "fst (encrypt_chars ctx cs) ! i < 65536"
  using assms
proof (induction cs arbitrary: ctx i)
  case Nil
  then show ?case by simp
next
  case (Cons x xs)
  have x: "x < 65536" using Cons.prems(7) [of 0] by simp
  note st = encrypt_char_bmp [OF Cons.prems(1-4) x]
  show ?case
  proof (cases i)
    case 0
    then show ?thesis using st(1) [OF Cons.prems(5)] by (simp add: case_prod_beta)
  next
    case (Suc i')
    have "fst (encrypt_chars (snd (encrypt_char ctx x)) xs) ! i' < 65536"
    proof (rule Cons.IH)
      show "initialized (snd (encrypt_char ctx x))"
        using Cons.prems(1) by (simp add: encrypt_char_frame)
      show "length (feedback (snd (encrypt_char ctx x))) = PROBLEMA_BLOCK_SIZE"
        using Cons.prems(2) by (simp add: encrypt_char_length_feedback)
      show "mset (plugboard (snd (encrypt_char ctx x))) = mset (identity_table PROBLEMA_ROTOR_SIZE)"
        using Cons.prems(3) by (simp add: encrypt_char_frame)
      show "feedback (snd (encrypt_char ctx x)) ! 0 = 0"
        "feedback (snd (encrypt_char ctx x)) ! Suc 0 = 0"
        using st(2,3) [OF Cons.prems(5)] by simp_all
      show "i' < length xs" using Cons.prems(6) Suc by simp
      show "xs ! j < 65536" if "j \<le> i'" for j
        using Cons.prems(7) [of "Suc j"] that Suc by simp
    qed
    then show ?thesis using Suc by (simp add: case_prod_beta)
  qed
qed


lemma encrypt_entry_frame:
  "initialized (encrypt_entry ctx) = initialized ctx"
  "plugboard (encrypt_entry ctx) = plugboard ctx"
  "feedback (encrypt_entry ctx) = replicate PROBLEMA_BLOCK_SIZE 0"
  "rotors (encrypt_entry ctx) = rotors ctx"
  "inverse_rotors (encrypt_entry ctx) = inverse_rotors ctx"
  by (simp_all add: encrypt_entry_def)

lemma split_bytes_0x10000: "split_bytes 0x10000 = [0, 1, 0, 0]"
  by (simp add: split_bytes_def)

section \<open>The rotor tables of the failing key\<close>

lemma swap_at_nth:
  "i < length m \<Longrightarrow> j < length m \<Longrightarrow>
   swap_at m i j ! k = (if k = j then m ! i else if k = i then m ! j else m ! k)"
  by (simp add: swap_at_def Let_def nth_list_update)

lemma swap_at_same [simp]: "swap_at m i i = m"
  by (simp add: swap_at_def Let_def)

lemma shuffle_down_above:
  assumes "i < k" "\<And>i'. 1 \<le> i' \<Longrightarrow> i' \<le> i \<Longrightarrow> jf i' \<le> i'"
  shows "shuffle_down jf i m ! k = m ! k"
  using assms
proof (induction i arbitrary: m)
  case 0
  then show ?case by simp
next
  case (Suc i)
  have j: "jf (Suc i) < k" using Suc.prems(1) Suc.prems(2) [of "Suc i"] by simp
  have "shuffle_down jf i (swap_at m (Suc i) (jf (Suc i))) ! k = swap_at m (Suc i) (jf (Suc i)) ! k"
    using Suc.prems by (intro Suc.IH) simp_all
  also have "\<dots> = m ! k"
    using Suc.prems(1) j by (simp add: swap_at_def Let_def)
  finally show ?case by simp
qed

text \<open>A Fisher-Yates pass whose swaps are all with the left neighbour, no two of them
  adjacent, is a product of disjoint transpositions.\<close>

lemma shuffle_down_adjacent:
  assumes adj: "\<And>i'. 1 \<le> i' \<Longrightarrow> i' \<le> i \<Longrightarrow> jf i' = i' \<or> jf i' = i' - 1"
    and sep: "\<And>i'. 2 \<le> i' \<Longrightarrow> i' \<le> i \<Longrightarrow> jf i' = i' - 1 \<Longrightarrow> jf (i' - 1) = i' - 1"
    and len: "i < length m" and k: "k \<le> i"
  shows "shuffle_down jf i m ! k =
           (if 1 \<le> k \<and> jf k = k - 1 then m ! (k - 1)
            else if k + 1 \<le> i \<and> jf (k + 1) = k then m ! (k + 1)
            else m ! k)"
  using adj sep len k
proof (induction i arbitrary: m k)
  case 0
  then show ?case by simp
next
  case (Suc i)
  let ?m' = "swap_at m (Suc i) (jf (Suc i))"
  have le: "jf i' \<le> i'" if "1 \<le> i'" "i' \<le> Suc i" for i'
    using Suc.prems(1) [OF that] by auto
  have jS: "jf (Suc i) = Suc i \<or> jf (Suc i) = i"
    using Suc.prems(1) [of "Suc i"] by simp
  have lenS: "Suc i < length m" "jf (Suc i) < length m"
    using Suc.prems(3) jS by auto
  have IH: "shuffle_down jf i ?m' ! k =
      (if 1 \<le> k \<and> jf k = k - 1 then ?m' ! (k - 1)
       else if k + 1 \<le> i \<and> jf (k + 1) = k then ?m' ! (k + 1)
       else ?m' ! k)" if "k \<le> i"
    using Suc.prems(1,2,3) that by (intro Suc.IH) simp_all
  show ?case
  proof (cases "k = Suc i")
    case True
    have "shuffle_down jf i ?m' ! k = ?m' ! k"
      using True le by (intro shuffle_down_above) simp_all
    also have "\<dots> = m ! jf (Suc i)"
      using True lenS by (simp add: swap_at_nth)
    finally show ?thesis using True jS by auto
  next
    case False
    then have ki: "k \<le> i" using Suc.prems(4) by simp
    show ?thesis
    proof (cases "jf (Suc i) = Suc i")
      case True
      have "k + 1 \<le> Suc i \<and> jf (k + 1) = k \<longleftrightarrow> k + 1 \<le> i \<and> jf (k + 1) = k"
        using True ki by (cases "k = i") auto
      then show ?thesis using IH [OF ki] True by simp
    next
      case False
      then have ji: "jf (Suc i) = i" using jS by simp
      have nt: "jf i = i" if "1 \<le> i"
        using Suc.prems(2) [of "Suc i"] ji that by simp
      have m': "?m' ! j = (if j = i then m ! Suc i else if j = Suc i then m ! i else m ! j)" for j
        using lenS ji by (simp add: swap_at_nth)
      show ?thesis
      proof (cases "k = i")
        case True
        have c1: "\<not> (1 \<le> k \<and> jf k = k - 1)" using nt True by auto
        have c2: "\<not> (k + 1 \<le> i \<and> jf (k + 1) = k)" using True by simp
        have "shuffle_down jf i ?m' ! k = ?m' ! k"
          by (simp only: IH [OF ki] if_not_P [OF c1] if_not_P [OF c2])
        also have "\<dots> = m ! Suc i" using True by (simp add: m')
        also have "\<dots> = (if k + 1 \<le> Suc i \<and> jf (k + 1) = k then m ! (k + 1) else m ! k)"
          using True ji by simp
        also have "\<dots> = (if 1 \<le> k \<and> jf k = k - 1 then m ! (k - 1)
            else if k + 1 \<le> Suc i \<and> jf (k + 1) = k then m ! (k + 1) else m ! k)"
          by (simp only: if_not_P [OF c1])
        finally show ?thesis by simp
      next
        case False
        then have klt: "k < i" using ki by simp
        have c: "\<not> (k + 1 = i \<and> jf (k + 1) = k)" using nt klt by auto
        have e: "k + 1 \<le> Suc i \<and> jf (k + 1) = k \<longleftrightarrow> k + 1 \<le> i \<and> jf (k + 1) = k"
          using klt by auto
        have "k - 1 \<noteq> i" "k - 1 \<noteq> Suc i" "k \<noteq> i" "k \<noteq> Suc i" using klt by arith+
        then have "?m' ! (k - 1) = m ! (k - 1)" "?m' ! k = m ! k" by (simp_all only: m' if_False)
        moreover have "?m' ! (k + 1) = m ! (k + 1)" if "k + 1 \<le> i \<and> jf (k + 1) = k"
          using that c klt by (simp add: m')
        ultimately show ?thesis using IH [OF ki] e by auto
      qed
    qed
  qed
qed


lemma failing_key_length:
  "length failing_key = PROBLEMA_KEY_SIZE" "take PROBLEMA_KEY_SIZE failing_key = failing_key"
  by (simp_all add: failing_key_def PROBLEMA_KEY_SIZE_def)

lemma failing_key_nth: "t < 32 \<Longrightarrow> failing_key ! t = (if t = 0 then 2 else 1)"
  by (simp add: failing_key_def nth_Cons')

lemma failing_key_shuffle_index:
  assumes "1 \<le> i"
  shows "rotor_shuffle_index failing_key r i = (if (r + i) mod 32 = 0 then i - 1 else i)"
proof -
  have "2 * i = (i + 1) + (i - 1)" using assms by simp
  then have "(2 * i) mod (i + 1) = (i - 1) mod (i + 1)"
    by (metis mod_add_self1)
  then have 2: "(2 * i) mod (i + 1) = i - 1" by simp
  show ?thesis
    using 2 by (simp add: rotor_shuffle_index_def PROBLEMA_KEY_SIZE_def failing_key_nth)
qed

lemma identity_table_nth: "j < n \<Longrightarrow> identity_table n ! j = of_nat j"
  by (simp add: identity_table_def)

lemma failing_key_mapping:
  assumes "k < PROBLEMA_ROTOR_SIZE"
  shows "mapping (init_rotor failing_key r old) ! k =
           (if 1 \<le> k \<and> (r + k) mod 32 = 0 then of_nat (k - 1)
            else if k + 1 < PROBLEMA_ROTOR_SIZE \<and> (r + k + 1) mod 32 = 0 then of_nat (k + 1)
            else of_nat k)"
proof -
  let ?jf = "rotor_shuffle_index failing_key r"
  let ?n = "PROBLEMA_ROTOR_SIZE - 1"
  have n: "0 < PROBLEMA_ROTOR_SIZE" by (simp add: PROBLEMA_ROTOR_SIZE_def)
  have "shuffle_down ?jf ?n (identity_table PROBLEMA_ROTOR_SIZE :: unicode_t list) ! k =
      (if 1 \<le> k \<and> ?jf k = k - 1 then identity_table PROBLEMA_ROTOR_SIZE ! (k - 1)
       else if k + 1 \<le> ?n \<and> ?jf (k + 1) = k then identity_table PROBLEMA_ROTOR_SIZE ! (k + 1)
       else identity_table PROBLEMA_ROTOR_SIZE ! k)"
  proof (rule shuffle_down_adjacent)
    show "?jf i' = i' \<or> ?jf i' = i' - 1" if "1 \<le> i'" for i'
      using that by (simp add: failing_key_shuffle_index)
    show "?jf (i' - 1) = i' - 1" if "2 \<le> i'" "?jf i' = i' - 1" for i'
    proof -
      have "(r + i') mod 32 = 0"
        using that by (simp add: failing_key_shuffle_index split: if_splits)
      then have "(r + (i' - 1)) mod 32 \<noteq> 0" using that(1) by presburger
      then show ?thesis using that(1) by (simp add: failing_key_shuffle_index)
    qed
    show "?n < length (identity_table PROBLEMA_ROTOR_SIZE :: unicode_t list)" using n by simp
    show "k \<le> ?n" using assms by simp
  qed
  moreover have "1 \<le> k \<and> ?jf k = k - 1 \<longleftrightarrow> 1 \<le> k \<and> (r + k) mod 32 = 0"
    by (auto simp: failing_key_shuffle_index split: if_splits)
  moreover have "k + 1 \<le> ?n \<and> ?jf (k + 1) = k
      \<longleftrightarrow> k + 1 < PROBLEMA_ROTOR_SIZE \<and> (r + k + 1) mod 32 = 0"
    using n by (auto simp: failing_key_shuffle_index split: if_splits)
  ultimately show ?thesis
    using assms by (simp add: init_rotor_def Let_def identity_table_nth)
qed


lemma failing_key_table_less: "k < 65536 \<Longrightarrow> failing_key_table r k < 65536"
  by (auto simp: failing_key_table_def)

lemma failing_key_table_involution:
  assumes "k < 65536"
  shows "failing_key_table r (failing_key_table r k) = k"
proof (cases "1 \<le> k \<and> (r + k) mod 32 = 0")
  case True
  then have 1: "failing_key_table r k = k - 1" by (simp add: failing_key_table_def)
  have "(r + (k - 1)) mod 32 \<noteq> 0" using True by presburger
  moreover have "r + (k - 1) + 1 = r + k" "k - 1 + 1 = k" using True by simp_all
  ultimately show ?thesis
    using True assms unfolding 1 by (simp add: failing_key_table_def)
next
  case a: False
  show ?thesis
  proof (cases "k + 1 < 65536 \<and> (r + k + 1) mod 32 = 0")
    case True
    then have 1: "failing_key_table r k = k + 1" using a by (auto simp: failing_key_table_def)
    have "(r + (k + 1)) mod 32 = 0" using True by (simp add: add.assoc)
    then show ?thesis unfolding 1 by (simp add: failing_key_table_def)
  next
    case False
    then have 1: "failing_key_table r k = k" using a by (auto simp: failing_key_table_def)
    show ?thesis by (simp only: 1)
  qed
qed

lemma failing_key_forward_table:
  assumes "k < 65536"
  shows "mapping (init_rotor failing_key r old) ! k = of_nat (failing_key_table r k)"
  using assms failing_key_mapping [of k r old]
  by (simp add: failing_key_table_def PROBLEMA_ROTOR_SIZE_def)

lemma failing_key_inverse_table:
  assumes "k < 65536" "length (mapping old) = PROBLEMA_ROTOR_SIZE"
  shows "mapping (init_inverse_rotor (init_rotor failing_key r old') old) ! k
           = of_nat (failing_key_table r k)"
proof -
  let ?j = "failing_key_table r k"
  have j: "?j < 65536" using assms(1) by (rule failing_key_table_less)
  then have "mapping (init_rotor failing_key r old') ! ?j = (of_nat k :: unicode_t)"
    using assms(1) by (simp add: failing_key_forward_table failing_key_table_involution)
  then have "unat (mapping (init_rotor failing_key r old') ! ?j) = k"
    using assms(1) by (simp add: unat_of_nat)
  moreover have "mapping (init_inverse_rotor (init_rotor failing_key r old') old)
      ! unat (mapping (init_rotor failing_key r old') ! ?j) = of_nat ?j"
    using j by (intro init_rotor_inverse [OF assms(2)]) (simp add: PROBLEMA_ROTOR_SIZE_def)
  ultimately show ?thesis by simp
qed

lemma zero_context_fields:
  "length (rotors zero_context) = PROBLEMA_NUM_ROTORS"
  "length (inverse_rotors zero_context) = PROBLEMA_NUM_ROTORS"
  "r < 8 \<Longrightarrow> rotors zero_context ! r = zero_rotor"
  "r < 8 \<Longrightarrow> inverse_rotors zero_context ! r = zero_rotor"
  "length (mapping zero_rotor) = PROBLEMA_ROTOR_SIZE"
  "length (notch_positions zero_rotor) = 8"
  by (simp_all add: zero_context_def zero_rotor_def PROBLEMA_NUM_ROTORS_def)

text \<open>The context \<open>problema_init\<close> builds from the failing key.\<close>

lemma failing_ctx_rotors:
  assumes "r < 8"
  shows "rotors (init_context zero_context failing_key) ! r = init_rotor failing_key r zero_rotor"
    "inverse_rotors (init_context zero_context failing_key) ! r
       = init_inverse_rotor (init_rotor failing_key r zero_rotor) zero_rotor"
  using assms
  by (simp_all add: init_context_rotors init_context_inverse_rotors zero_context_fields
      failing_key_length PROBLEMA_NUM_ROTORS_def)

lemma failing_ctx_tables:
  assumes "r < 8" "k < 65536"
  shows "mapping (rotors (init_context zero_context failing_key) ! r) ! k
           = of_nat (failing_key_table r k)"
    "mapping (inverse_rotors (init_context zero_context failing_key) ! r) ! k
           = of_nat (failing_key_table r k)"
  using assms
  by (simp_all add: failing_ctx_rotors failing_key_forward_table failing_key_inverse_table
      zero_context_fields)

lemma failing_ctx_positions:
  assumes "r < 8"
  shows "position (rotors (init_context zero_context failing_key) ! r) = (if r = 0 then 2 else 1)"
    "position (inverse_rotors (init_context zero_context failing_key) ! r)
       = (if r = 0 then 2 else 1)"
  using assms
  by (simp_all add: failing_ctx_rotors init_rotor_fields init_inverse_rotor_fields
      PROBLEMA_KEY_SIZE_def failing_key_nth)


lemma take_2_update:
  "2 \<le> length xs \<Longrightarrow> take 2 (xs[0 := a, Suc 0 := b]) = [a, b]"
  by (cases xs; cases "tl xs") (auto simp: numeral_2_eq_2)

lemma failing_ctx_notches:
  assumes "r < 8"
  shows "notches (rotors (init_context zero_context failing_key) ! r) = {251}"
proof -
  have m: "(r + 1) mod 32 = r + 1" "(r + 0 + 2) mod 32 = r + 2" "(r + Suc 0 + 2) mod 32 = r + 3"
    using assms by simp_all
  have k: "failing_key ! (r + 1) = 1" "failing_key ! (r + 2) = 1" "failing_key ! (r + 3) = 1"
    using assms by (simp_all add: failing_key_nth)
  have u: "[0..<2] = [0, Suc 0]" by (simp add: upt_rec)
  have "init_notches failing_key r 2 (notch_positions zero_rotor)
      = (notch_positions zero_rotor)[0 := 251, Suc 0 := 251]"
    unfolding init_notches_def PROBLEMA_KEY_SIZE_def
    by (simp only: nat_numeral u fold.simps o_apply id_apply m k) (simp add: smod_nonneg)
  moreover have "num_notches (init_rotor failing_key r zero_rotor) = 2"
    unfolding init_rotor_fields PROBLEMA_KEY_SIZE_def m k by simp
  moreover have "notch_positions (init_rotor failing_key r zero_rotor)
      = init_notches failing_key r 2 (notch_positions zero_rotor)"
    unfolding init_rotor_def Let_def PROBLEMA_KEY_SIZE_def m k by (simp add: smod_nonneg)
  ultimately show ?thesis
    using assms
    by (simp add: notches_def failing_ctx_rotors take_2_update zero_context_fields)
qed

lemma failing_ctx_reachable: "reachable (init_context zero_context failing_key)"
  by (rule reach_init [OF zero_context_alloc failing_key_length(1)])

lemma failing_ctx_rotated:
  assumes "r < 8"
  shows "rotors (rotate_rotors (init_context zero_context failing_key)) ! r
           = (rotors (init_context zero_context failing_key) ! r)
               \<lparr>position := (if r = 0 then 3 else 1)\<rparr>"
    "inverse_rotors (rotate_rotors (init_context zero_context failing_key)) ! r
           = (inverse_rotors (init_context zero_context failing_key) ! r)
               \<lparr>position := (if r = 0 then 3 else 1)\<rparr>"
proof -
  let ?K = "init_context zero_context failing_key"
  have inv: "ctx_alloc ?K" "positions_ok ?K"
    using reachable_inv [OF failing_ctx_reachable] by simp_all
  have "\<not> spec_advances ?K (Suc 0)"
    by (simp add: failing_ctx_positions failing_ctx_notches)
  then have "\<not> spec_advances ?K r" if "r \<noteq> 0"
    using spec_advances_mono [of ?K r "Suc 0"] that by auto
  then have "spec_position ?K r = (if r = 0 then 3 else 1)"
    using assms by (auto simp: spec_position_def failing_ctx_positions)
  then show "rotors (rotate_rotors ?K) ! r = (rotors ?K ! r)\<lparr>position := (if r = 0 then 3 else 1)\<rparr>"
    "inverse_rotors (rotate_rotors ?K) ! r
       = (inverse_rotors ?K ! r)\<lparr>position := (if r = 0 then 3 else 1)\<rparr>"
    using rotate_rotors_nth [OF inv, of r] assms by (simp_all add: PROBLEMA_NUM_ROTORS_def)
qed

lemma upt_8: "[0..<8] = [0, 1, 2, 3, 4, 5, 6, 7::nat]"
  by (simp add: upt_rec)

lemma failing_forward_before:
  assumes "rotors c = rotors (init_context zero_context failing_key)"
  shows "apply_rotors_forward c 61 = 55"
  by (simp add: apply_rotors_forward_def assms PROBLEMA_NUM_ROTORS_def upt_8
      rotor_forward_step_def Let_def failing_ctx_positions failing_ctx_tables
      failing_key_table_def)


lemma failing_backward_after:
  assumes "inverse_rotors c = inverse_rotors (rotate_rotors (init_context zero_context failing_key))"
  shows "apply_rotors_backward c 55 = 62"
  by (simp add: apply_rotors_backward_def assms PROBLEMA_NUM_ROTORS_def upt_8
      rotor_backward_step_def Let_def failing_ctx_rotated failing_ctx_tables
      failing_key_table_def)

lemma failing_backward_before:
  assumes "inverse_rotors c = inverse_rotors (init_context zero_context failing_key)"
  shows "apply_rotors_backward c 62 = 62"
  by (simp add: apply_rotors_backward_def assms PROBLEMA_NUM_ROTORS_def upt_8
      rotor_backward_step_def Let_def failing_ctx_positions failing_ctx_tables
      failing_key_table_def)

lemma failing_forward_after:
  assumes "rotors c = rotors (rotate_rotors (init_context zero_context failing_key))"
  shows "apply_rotors_forward c 62 = 55"
  by (simp add: apply_rotors_forward_def assms PROBLEMA_NUM_ROTORS_def upt_8
      rotor_forward_step_def Let_def failing_ctx_rotated failing_ctx_tables
      failing_key_table_def)

lemma plug_fold_untouched:
  assumes "\<And>i. f i \<noteq> x" "\<And>i. g i \<noteq> x"
  shows "fold (\<lambda>i m. swap_at m (f i) (g i)) xs m ! x = m ! x"
  using assms by (induction xs arbitrary: m) (simp_all add: swap_at_def Let_def)

lemma failing_plug_index: "252 \<le> plug_index failing_key i"
  by (simp add: plug_index_def PROBLEMA_KEY_SIZE_def failing_key_nth)

lemma failing_plugboard:
  assumes "x < 252"
  shows "plugboard (init_context zero_context failing_key) ! x = of_nat x"
proof -
  have "plug_index failing_key i \<noteq> x" for i
    using failing_plug_index [of i] assms by simp
  then show ?thesis
    using assms
    by (simp add: init_context_plugboard failing_key_length plug_fold_untouched
        identity_table_nth PROBLEMA_ROTOR_SIZE_def)
qed

lemma advance_rotor_cong:
  assumes "rotors c = rotors c'" "inverse_rotors c = inverse_rotors c'"
  shows "rotors (advance_rotor r c) = rotors (advance_rotor r c')"
    "inverse_rotors (advance_rotor r c) = inverse_rotors (advance_rotor r c')"
  using assms by (simp_all add: advance_rotor_def Let_def)

lemma rotate_carry_cong:
  assumes "rotors c = rotors c'" "inverse_rotors c = inverse_rotors c'"
  shows "rotors (rotate_carry rs c) = rotors (rotate_carry rs c')
       \<and> inverse_rotors (rotate_carry rs c) = inverse_rotors (rotate_carry rs c')"
  using assms
proof (induction rs arbitrary: c c')
  case Nil
  then show ?case by simp
next
  case (Cons r rs)
  show ?case
    using Cons.IH [OF advance_rotor_cong [OF Cons.prems]] Cons.prems by simp
qed

lemma rotate_rotors_cong:
  assumes "rotors c = rotors c'" "inverse_rotors c = inverse_rotors c'"
  shows "rotors (rotate_rotors c) = rotors (rotate_rotors c')"
    "inverse_rotors (rotate_rotors c) = inverse_rotors (rotate_rotors c')"
  using rotate_carry_cong [OF advance_rotor_cong [OF assms]]
  by (simp_all add: rotate_rotors_def)

lemma split_join_low:
  "join_bytes (xor_feedback (replicate 16 0) (split_bytes 62)) = 62"
  by (simp add: xor_feedback_eq split_bytes_def join_bytes_def)

lemma encrypt_char_body_fst:
  "fst (encrypt_char_body ctx x)
     = join_bytes (xor_feedback (feedback ctx) (split_bytes
         (apply_rotors_backward (rotate_rotors (ctx\<lparr>encrypt_mode := True\<rparr>))
           (apply_rotors_forward (ctx\<lparr>encrypt_mode := True\<rparr>)
             (apply_plugboard (ctx\<lparr>encrypt_mode := True\<rparr>) x)))))"
  by (simp add: encrypt_char_body_def Let_def rotate_rotors_frame)

text \<open>The two steps of the failure, on any context that has the tables and positions
  \<open>problema_init\<close> derives from the failing key, and zero feedback.\<close>

lemma failing_encrypt_char:
  assumes "initialized c" "feedback c = replicate 16 0"
    "rotors c = rotors (init_context zero_context failing_key)"
    "inverse_rotors c = inverse_rotors (init_context zero_context failing_key)"
    "plugboard c = plugboard (init_context zero_context failing_key)"
  shows "fst (encrypt_char c 0x3D) = 0x3E"
proof -
  let ?c1 = "c\<lparr>encrypt_mode := True\<rparr>"
  have p: "apply_plugboard ?c1 0x3D = 61"
    using failing_plugboard [of 61] by (simp add: apply_plugboard_def assms(5))
  have f: "apply_rotors_forward ?c1 61 = 55"
    by (rule failing_forward_before) (simp add: assms(3))
  have b: "apply_rotors_backward (rotate_rotors ?c1) 55 = 62"
    by (rule failing_backward_after, rule rotate_rotors_cong) (simp_all add: assms(3,4))
  show ?thesis
    using assms(1)
    by (simp add: encrypt_char_def encrypt_char_body_fst p f b assms(2) split_join_low)
qed

lemma failing_decrypt_char:
  assumes "initialized c" "feedback c = replicate 16 0"
    "rotors c = rotors (init_context zero_context failing_key)"
    "inverse_rotors c = inverse_rotors (init_context zero_context failing_key)"
    "plugboard c = plugboard (init_context zero_context failing_key)"
  shows "fst (decrypt_char c 0x3E) = 0x37"
proof -
  have b: "apply_rotors_backward (c\<lparr>encrypt_mode := False, feedback := fb\<rparr>) 62 = 62" for fb
    by (rule failing_backward_before) (simp add: assms(4))
  have f: "apply_rotors_forward (rotate_rotors (c\<lparr>encrypt_mode := False, feedback := fb\<rparr>)) 62
      = 55" for fb
    by (rule failing_forward_after, rule rotate_rotors_cong) (simp_all add: assms(3,4))
  have p: "apply_plugboard (rotate_rotors (c\<lparr>encrypt_mode := False, feedback := fb\<rparr>)) 55
      = 55" for fb
    using failing_plugboard [of 55]
    by (simp add: apply_plugboard_def rotate_rotors_frame assms(5))
  show ?thesis
    using assms(1)
    by (simp add: decrypt_char_def decrypt_char_body_def Let_def assms(2) split_join_low b f p)
qed

lemma decrypt_entry_frame:
  "initialized (decrypt_entry ctx) = initialized ctx"
  "plugboard (decrypt_entry ctx) = plugboard ctx"
  "feedback (decrypt_entry ctx) = replicate PROBLEMA_BLOCK_SIZE 0"
  "rotors (decrypt_entry ctx) = rotors ctx"
  "inverse_rotors (decrypt_entry ctx) = inverse_rotors ctx"
  by (simp_all add: decrypt_entry_def)

lemma utf8_to_unicode_ascii:
  "utf8_to_unicode [0x3D] (Suc 0) = Inr [0x3D]" "utf8_to_unicode [0x3E] (Suc 0) = Inr [0x3E]"
  by (simp_all add: utf8_to_unicode_def)

lemma unicode_to_utf8_ascii:
  "unicode_to_utf8 [0x3E] 4 = Inr [0x3E]" "unicode_to_utf8 [0x37] 4 = Inr [0x37]"
  by (simp_all add: unicode_to_utf8_def encode_code_point_def)

section \<open>Null and uninitialized contexts\<close>

text \<open>
  Claim C9.  For every code point \<open>x\<close>, \<open>problema_encrypt_char\<close> and
  \<open>problema_decrypt_char\<close> called with a null context, or with a context whose
  \<open>initialized\<close> flag is false, return \<open>x\<close> unchanged and leave the context as it was
  (the functions have no error channel: the returned pair is all they produce).
\<close>

theorem char_passthrough_uninitialized:
  assumes "ctxp = None \<or> (\<exists>ctx. ctxp = Some ctx \<and> \<not> initialized ctx)"
  shows "problema_encrypt_char ctxp x = (x, ctxp) \<and> problema_decrypt_char ctxp x = (x, ctxp)"
  using assms
  by (auto simp: problema_encrypt_char_def problema_decrypt_char_def
      encrypt_char_def decrypt_char_def)

theorem char_passthrough_uninitialized_witness:
  "problema_encrypt_char None 0x41 = (0x41, None)
   \<and> problema_decrypt_char None 0x41 = (0x41, None)"
  using char_passthrough_uninitialized [of None "0x41"]
  by simp

section \<open>Rotor advancement\<close>

text \<open>
  Claim C6.  On every context reachable through the public functions, a call of
  \<open>rotate_rotors\<close> increments the position of rotor 0 by 1 modulo 65536; then for
  \<open>r = 0, \<dots>, 6\<close> in order, rotor \<open>r + 1\<close> is incremented by 1 modulo 65536
  exactly when rotor \<open>r\<close> was advanced and its new position is one of its notch
  positions, so the carry stops at the first rotor that is not at a notch
  (\<open>spec_position\<close>, \<open>spec_advances\<close>); and after the call, every inverse rotor's
  position equals its forward rotor's position.
\<close>

theorem rotate_rotors_odometer:
  assumes "reachable ctx" "r < PROBLEMA_NUM_ROTORS"
  shows "position (rotors (rotate_rotors ctx) ! 0) = (position (rotors ctx ! 0) + 1) mod 65536
       \<and> position (rotors (rotate_rotors ctx) ! r) = spec_position ctx r
       \<and> position (inverse_rotors (rotate_rotors ctx) ! r)
           = position (rotors (rotate_rotors ctx) ! r)"
proof -
  have inv: "ctx_alloc ctx" "positions_ok ctx"
    using reachable_inv [OF assms(1)] by simp_all
  have 0: "0 < PROBLEMA_NUM_ROTORS" by (simp add: PROBLEMA_NUM_ROTORS_def)
  show ?thesis
    using rotate_rotors_nth [OF inv assms(2)] rotate_rotors_nth [OF inv 0]
    by (simp add: spec_position_def)
qed

theorem rotate_rotors_odometer_witness:
  "reachable (init_context zero_context (replicate 32 0))
   \<and> position (rotors (rotate_rotors (init_context zero_context (replicate 32 0))) ! 0) = 1
   \<and> position (inverse_rotors (rotate_rotors (init_context zero_context (replicate 32 0))) ! 0) = 1"
proof -
  let ?ctx = "init_context zero_context (replicate 32 0)"
  have re: "reachable ?ctx"
    by (rule reach_init [OF zero_context_alloc length_key0])
  have 0: "0 < PROBLEMA_NUM_ROTORS" by (simp add: PROBLEMA_NUM_ROTORS_def)
  have "length (rotors zero_context) = PROBLEMA_NUM_ROTORS"
    by (simp add: zero_context_def)
  then have p: "position (rotors ?ctx ! 0) = 0"
    using 0 by (simp add: init_context_rotors init_rotor_fields PROBLEMA_KEY_SIZE_def)
  show ?thesis
    using rotate_rotors_odometer [OF re 0] re p by simp
qed



section \<open>Entry of the string functions\<close>

text \<open>
  Claim C5.  Once their null and initialized checks have passed, \<open>problema_encrypt\<close> and
  \<open>problema_decrypt\<close> set the 16 feedback bytes to zero and leave both rotor banks
  (so every rotor position) as they were at the call, whatever the input is: when the
  input does not decode the call returns the decoder's error and leaves the context in
  that state, \<open>encrypt_entry ctx\<close> (\<open>decrypt_entry ctx\<close>), and otherwise the characters
  are processed from that state, whose rotors are those of \<open>ctx\<close>, not those
  \<open>problema_init\<close> left.
\<close>

theorem entry_resets_feedback_keeps_rotors:
  assumes "initialized ctx"
  shows "feedback (encrypt_entry ctx) = replicate 16 0
       \<and> feedback (decrypt_entry ctx) = replicate 16 0
       \<and> rotors (encrypt_entry ctx) = rotors ctx
       \<and> inverse_rotors (encrypt_entry ctx) = inverse_rotors ctx
       \<and> rotors (decrypt_entry ctx) = rotors ctx
       \<and> inverse_rotors (decrypt_entry ctx) = inverse_rotors ctx
       \<and> problema_encrypt (Some ctx) (Some input) n
           = (case utf8_to_unicode input (length input) of
                Inl e \<Rightarrow> (Inl e, Some (encrypt_entry ctx))
              | Inr cs \<Rightarrow>
                  (unicode_to_utf8 (fst (encrypt_chars (encrypt_entry ctx) cs)) n,
                   Some (snd (encrypt_chars (encrypt_entry ctx) cs))))
       \<and> problema_decrypt (Some ctx) (Some input) n
           = (case utf8_to_unicode input (length input) of
                Inl e \<Rightarrow> (Inl e, Some (decrypt_entry ctx))
              | Inr cs \<Rightarrow>
                  (unicode_to_utf8 (fst (decrypt_chars (decrypt_entry ctx) cs)) n,
                   Some (snd (decrypt_chars (decrypt_entry ctx) cs))))"
proof -
  have "problema_encrypt (Some ctx) (Some input) n
           = (case utf8_to_unicode input (length input) of
                Inl e \<Rightarrow> (Inl e, Some (encrypt_entry ctx))
              | Inr cs \<Rightarrow>
                  (unicode_to_utf8 (fst (encrypt_chars (encrypt_entry ctx) cs)) n,
                   Some (snd (encrypt_chars (encrypt_entry ctx) cs))))"
    using assms
    by (simp add: problema_encrypt_def case_prod_beta Let_def split: sum.split)
  moreover have "problema_decrypt (Some ctx) (Some input) n
           = (case utf8_to_unicode input (length input) of
                Inl e \<Rightarrow> (Inl e, Some (decrypt_entry ctx))
              | Inr cs \<Rightarrow>
                  (unicode_to_utf8 (fst (decrypt_chars (decrypt_entry ctx) cs)) n,
                   Some (snd (decrypt_chars (decrypt_entry ctx) cs))))"
    using assms
    by (simp add: problema_decrypt_def case_prod_beta Let_def split: sum.split)
  ultimately show ?thesis
    by (simp add: encrypt_entry_def decrypt_entry_def PROBLEMA_BLOCK_SIZE_def)
qed

theorem entry_resets_feedback_keeps_rotors_witness:
  "initialized (call_chars (init_context zero_context (replicate 32 0)) [EncryptChar 0x10000])
   \<and> feedback (call_chars (init_context zero_context (replicate 32 0)) [EncryptChar 0x10000])
       ! 1 = 1
   \<and> position (rotors
         (call_chars (init_context zero_context (replicate 32 0)) [EncryptChar 0x10000]) ! 0) = 1
   \<and> feedback (encrypt_entry
         (call_chars (init_context zero_context (replicate 32 0)) [EncryptChar 0x10000]))
       = replicate 16 0
   \<and> feedback (decrypt_entry
         (call_chars (init_context zero_context (replicate 32 0)) [EncryptChar 0x10000]))
       = replicate 16 0
   \<and> position (rotors (encrypt_entry
         (call_chars (init_context zero_context (replicate 32 0)) [EncryptChar 0x10000])) ! 0) = 1
   \<and> position (rotors (decrypt_entry
         (call_chars (init_context zero_context (replicate 32 0)) [EncryptChar 0x10000])) ! 0) = 1
   \<and> problema_encrypt
         (Some (call_chars (init_context zero_context (replicate 32 0)) [EncryptChar 0x10000]))
         (Some [0x80]) 0
       = (Inl ERROR_INVALID_UTF8, Some (encrypt_entry
           (call_chars (init_context zero_context (replicate 32 0)) [EncryptChar 0x10000])))
   \<and> problema_decrypt
         (Some (call_chars (init_context zero_context (replicate 32 0)) [EncryptChar 0x10000]))
         (Some [0x80]) 0
       = (Inl ERROR_INVALID_UTF8, Some (decrypt_entry
           (call_chars (init_context zero_context (replicate 32 0)) [EncryptChar 0x10000])))
   \<and> problema_encrypt
         (Some (call_chars (init_context zero_context (replicate 32 0)) [EncryptChar 0x10000]))
         (Some []) 0
       = (Inr [], Some (encrypt_entry
           (call_chars (init_context zero_context (replicate 32 0)) [EncryptChar 0x10000])))"
proof -
  let ?ini = "init_context zero_context (replicate 32 0)"
  let ?ctx = "call_chars ?ini [EncryptChar 0x10000]"
  have re: "reachable ?ini"
    by (rule reach_init [OF zero_context_alloc length_key0])
  have inv: "ctx_alloc ?ini" "positions_ok ?ini"
    using reachable_inv [OF re] by simp_all
  have ini0: "initialized ?ini" by (simp add: init_context_frame)
  have ini: "initialized ?ctx"
    using call_char_step(2) [OF inv ini0, of "EncryptChar 0x10000"] by (simp add: call_chars_def)
  have pos: "position (rotors ?ctx ! 0) = 1"
    using call_chars_position [OF inv ini0, of "[EncryptChar 0x10000]"] init_key0_position
    by simp
  have fb0: "feedback ?ini = replicate 16 0"
    by (simp add: init_context_frame PROBLEMA_BLOCK_SIZE_def)
  obtain y where y: "y = (0x10000 :: unicode_t)"
    "feedback (snd (encrypt_char ?ini 0x10000))
       = store_feedback (feedback ?ini) (xor_feedback (feedback ?ini) (split_bytes y))"
    using encrypt_char_feedback_stage [OF ini0, of "0x10000"] by auto
  have x: "xor_feedback (feedback ?ini) (split_bytes 0x10000) = [0, 1, 0, 0]"
    by (simp add: xor_feedback_eq fb0 split_bytes_0x10000)
  have len: "length (feedback ?ini) = PROBLEMA_BLOCK_SIZE"
    by (simp add: fb0 PROBLEMA_BLOCK_SIZE_def)
  have fb: "feedback ?ctx ! 1 = 1"
    using y x by (simp add: store_feedback_nth [OF len] call_chars_def)
  have bad: "utf8_to_unicode [0x80] (Suc 0) = Inl ERROR_INVALID_UTF8"
    by (simp add: utf8_to_unicode_def)
  show ?thesis
    using entry_resets_feedback_keeps_rotors [OF ini, of "[0x80]" 0]
      entry_resets_feedback_keeps_rotors [OF ini, of "[]" 0] ini pos fb
    by (simp add: bad utf8_to_unicode_empty unicode_to_utf8_def del: One_nat_def)
qed

section \<open>Block mode\<close>

text \<open>
  Claim C4.  The reduced-AES forward and inverse transforms are not mutual inverses:
  there are a 32-byte key and a 16-byte block \<open>b\<close> such that the inverse transform
  applied to the forward transform of \<open>b\<close> is not \<open>b\<close>, and such that
  \<open>problema_decrypt_block\<close>, on a fresh context of the same key, does not return \<open>b\<close>
  from the output of \<open>problema_encrypt_block\<close> on \<open>b\<close>.  (The forward transform sends
  every block of sixteen equal bytes to round key 0, so it is not even injective.)
\<close>

theorem reduced_aes_not_inverse:
  "\<exists>k b c ctx'.
     length k = PROBLEMA_KEY_SIZE \<and> length b = PROBLEMA_BLOCK_SIZE
     \<and> apply_inverse_aes_transformation (init_context zero_context k)
           (apply_aes_transformation (init_context zero_context k) b) \<noteq> b
     \<and> problema_encrypt_block (Some (init_context zero_context k)) b = (Some c, Some ctx')
     \<and> fst (problema_decrypt_block (Some (init_context zero_context k)) c) \<noteq> Some b"
proof -
  let ?ctx = "init_context zero_context (replicate 32 0)"
  let ?f = "apply_aes_transformation ?ctx"
  let ?g = "apply_inverse_aes_transformation ?ctx"
  have ini: "initialized ?ctx" "feedback ?ctx = replicate 16 0"
    by (simp_all add: init_context_frame PROBLEMA_BLOCK_SIZE_def)
  have same: "?f (replicate 16 0) = ?f (replicate 16 1)"
    by (simp only: aes_forward_constant)
  have "replicate 16 (0::byte_t) \<noteq> replicate 16 1"
    by (simp add: replicate_16)
  then have "?g (?f (replicate 16 0)) \<noteq> replicate 16 0 \<or> ?g (?f (replicate 16 1)) \<noteq> replicate 16 1"
    using same by auto
  then obtain b :: "byte_t list" where b: "length b = 16" "?g (?f b) \<noteq> b"
    by (metis length_replicate)
  obtain ctx' where e: "problema_encrypt_block (Some ?ctx) b = (Some (?f b), Some ctx')"
    using block_mode_fresh(1) [OF ini b(1)] by blast
  have d: "fst (problema_decrypt_block (Some ?ctx) (?f b)) = Some (?g (?f b))"
    by (rule block_mode_fresh(2) [OF ini b(1)])
  have "length (replicate 32 (0::byte_t)) = PROBLEMA_KEY_SIZE \<and> length b = PROBLEMA_BLOCK_SIZE
     \<and> ?g (?f b) \<noteq> b
     \<and> problema_encrypt_block (Some ?ctx) b = (Some (?f b), Some ctx')
     \<and> fst (problema_decrypt_block (Some ?ctx) (?f b)) \<noteq> Some b"
    using b e d by (simp add: PROBLEMA_KEY_SIZE_def PROBLEMA_BLOCK_SIZE_def)
  then show ?thesis by blast
qed

section \<open>Key schedule invariants\<close>

text \<open>
  Claim C7.  Immediately after \<open>problema_init\<close> succeeds with a 32-byte key, for every
  rotor index \<open>r\<close>: \<open>rotors[r].mapping\<close> is a bijection on \<open>[0, 65536)\<close> and
  \<open>inverse_rotors[r].mapping[rotors[r].mapping[i]] = i\<close> for every \<open>i\<close>; the S-box is a
  bijection on \<open>[0, 256)\<close> with \<open>inv_sbox[sbox[b]] = b\<close> for every \<open>b\<close>; and
  \<open>num_notches\<close> of each rotor lies in \<open>[1, 7]\<close>.
\<close>

theorem init_tables_invariants:
  assumes "ctx_alloc ctx0" "length k = PROBLEMA_KEY_SIZE"
    "problema_init (Some ctx0) (Some k) = Inr ctx" "r < PROBLEMA_NUM_ROTORS"
  shows "bij_betw (\<lambda>i. unat (mapping (rotors ctx ! r) ! i)) {..<65536} {..<65536}
       \<and> (\<forall>i<65536. mapping (inverse_rotors ctx ! r) ! unat (mapping (rotors ctx ! r) ! i)
                       = of_nat i)
       \<and> bij_betw (\<lambda>b. unat (sbox (aes ctx) ! b)) {..<256} {..<256}
       \<and> (\<forall>b<256. inv_sbox (aes ctx) ! unat (sbox (aes ctx) ! b) = of_nat b)
       \<and> 1 \<le> num_notches (rotors ctx ! r) \<and> num_notches (rotors ctx ! r) \<le> 7"
proof -
  have ctx: "ctx = init_context ctx0 k"
    using assms(3) by (simp add: problema_init_def)
  have len: "length (rotors ctx0) = PROBLEMA_NUM_ROTORS"
    "length (inverse_rotors ctx0) = PROBLEMA_NUM_ROTORS"
    "length (mapping (inverse_rotors ctx0 ! r)) = PROBLEMA_ROTOR_SIZE"
    "length (inv_sbox (aes ctx0)) = PROBLEMA_SBOX_SIZE"
    using assms(1,4) by (simp_all add: ctx_alloc_def list_all_length rotor_alloc_def)
  let ?k = "take PROBLEMA_KEY_SIZE k"
  have rot: "rotors ctx ! r = init_rotor ?k r (rotors ctx0 ! r)"
    "inverse_rotors ctx ! r
       = init_inverse_rotor (init_rotor ?k r (rotors ctx0 ! r)) (inverse_rotors ctx0 ! r)"
    using len assms(4) by (simp_all add: ctx init_context_rotors init_context_inverse_rotors)
  have "mset (mapping (init_rotor ?k r (rotors ctx0 ! r))) = mset (identity_table PROBLEMA_ROTOR_SIZE)"
    by (rule init_rotor_mapping_mset)
  from permuted_table_bij(3) [OF this rotor_size_le]
  have 1: "bij_betw (\<lambda>i. unat (mapping (rotors ctx ! r) ! i)) {..<65536} {..<65536}"
    by (simp add: rot PROBLEMA_ROTOR_SIZE_def)
  have 2: "\<forall>i<65536. mapping (inverse_rotors ctx ! r) ! unat (mapping (rotors ctx ! r) ! i) = of_nat i"
    using init_rotor_inverse [OF len(3)]
    by (simp add: rot PROBLEMA_ROTOR_SIZE_def)
  have "mset (sbox (aes (init_context ctx0 k))) = mset (identity_table PROBLEMA_SBOX_SIZE)"
    by (rule init_context_sbox_mset)
  note sb = permuted_table_bij [OF this sbox_size_le]
  have 3: "bij_betw (\<lambda>b. unat (sbox (aes ctx) ! b)) {..<256} {..<256}"
    using sb(3) by (simp add: ctx PROBLEMA_SBOX_SIZE_def)
  have 4: "\<forall>b<256. inv_sbox (aes ctx) ! unat (sbox (aes ctx) ! b) = of_nat b"
  proof (intro allI impI)
    fix b :: nat assume "b < 256"
    then have b: "b < PROBLEMA_SBOX_SIZE" by (simp add: PROBLEMA_SBOX_SIZE_def)
    show "inv_sbox (aes ctx) ! unat (sbox (aes ctx) ! b) = of_nat b"
      unfolding ctx init_context_sbox(2)
      using sb(1,2,4) len(4) sbox_size_le b by (intro invert_table_nth) simp_all
  qed
  have "0 \<le> uint (?k ! ((r + 1) mod PROBLEMA_KEY_SIZE)) mod 7"
    "uint (?k ! ((r + 1) mod PROBLEMA_KEY_SIZE)) mod 7 < 7"
    by simp_all
  then have 5: "1 \<le> num_notches (rotors ctx ! r) \<and> num_notches (rotors ctx ! r) \<le> 7"
    by (simp add: rot init_rotor_fields)
  show ?thesis using 1 2 3 4 5 by blast
qed

theorem init_tables_invariants_witness:
  "ctx_alloc zero_context \<and> length (replicate 32 (0::byte_t)) = PROBLEMA_KEY_SIZE
   \<and> problema_init (Some zero_context) (Some (replicate 32 0))
       = Inr (init_context zero_context (replicate 32 0))
   \<and> (0::nat) < PROBLEMA_NUM_ROTORS
   \<and> bij_betw (\<lambda>i. unat (mapping (rotors (init_context zero_context (replicate 32 0)) ! 0) ! i))
        {..<65536} {..<65536}
   \<and> bij_betw (\<lambda>b. unat (sbox (aes (init_context zero_context (replicate 32 0))) ! b))
        {..<256} {..<256}
   \<and> num_notches (rotors (init_context zero_context (replicate 32 0)) ! 0) = 1"
proof -
  have i: "problema_init (Some zero_context) (Some (replicate 32 0))
       = Inr (init_context zero_context (replicate 32 0))"
    by (simp add: problema_init_def)
  have 0: "0 < PROBLEMA_NUM_ROTORS" by (simp add: PROBLEMA_NUM_ROTORS_def)
  have "length (rotors zero_context) = PROBLEMA_NUM_ROTORS"
    by (simp add: zero_context_def)
  then have n: "num_notches (rotors (init_context zero_context (replicate 32 0)) ! 0) = 1"
    using 0 by (simp add: init_context_rotors init_rotor_fields PROBLEMA_KEY_SIZE_def)
  show ?thesis
    using init_tables_invariants [OF zero_context_alloc length_key0 i 0]
      zero_context_alloc length_key0 i 0 n
    by blast
qed

section \<open>Emitted code points and the Basic Multilingual Plane\<close>

text \<open>
  Claim C3, as stated, fails: after a code point of \<open>0x10000\<close> or more the feedback
  bytes 0 and 1 are no longer zero, and the next code point, though its input is at most
  \<open>0xFFFF\<close>, is emitted above \<open>0xFFFF\<close>.  Here the stream is \<open>U+10000, U+0041\<close>.
\<close>

theorem bmp_after_supplementary_counterexample:
  "\<not> fst (encrypt_chars (encrypt_entry (init_context zero_context (replicate 32 0)))
          [0x10000, 0x41]) ! 1 \<le> 0xFFFF"
proof -
  let ?ini = "init_context zero_context (replicate 32 0)"
  let ?c0 = "encrypt_entry ?ini"
  let ?c1 = "snd (encrypt_char ?c0 0x10000)"
  have re: "reachable ?ini"
    by (rule reach_init [OF zero_context_alloc length_key0])
  have ini: "initialized ?c0" by (simp add: encrypt_entry_frame init_context_frame)
  have fb0: "feedback ?c0 = replicate 16 0"
    by (simp add: encrypt_entry_frame PROBLEMA_BLOCK_SIZE_def)
  have pl: "mset (plugboard ?c0) = mset (identity_table PROBLEMA_ROTOR_SIZE)"
    using reachable_plugboard [OF re] by (simp add: encrypt_entry_frame)
  obtain y where y: "y = (0x10000 :: unicode_t)"
    "feedback ?c1 = store_feedback (feedback ?c0) (xor_feedback (feedback ?c0) (split_bytes y))"
    using encrypt_char_feedback_stage [OF ini, of "0x10000"] by auto
  have x: "xor_feedback (feedback ?c0) (split_bytes 0x10000) = [0, 1, 0, 0]"
    by (simp add: xor_feedback_eq fb0 split_bytes_0x10000)
  have len: "length (feedback ?c0) = PROBLEMA_BLOCK_SIZE"
    by (simp add: fb0 PROBLEMA_BLOCK_SIZE_def)
  have fb1: "feedback ?c1 ! 0 = 0" "feedback ?c1 ! Suc 0 = 1"
    using y x by (simp_all add: store_feedback_nth [OF len])
  have "\<not> fst (encrypt_char ?c1 0x41) < 65536"
  proof (rule encrypt_char_bmp(4))
    show "initialized ?c1" using ini by (simp add: encrypt_char_frame)
    show "length (feedback ?c1) = PROBLEMA_BLOCK_SIZE"
      using len by (simp add: encrypt_char_length_feedback)
    show "mset (plugboard ?c1) = mset (identity_table PROBLEMA_ROTOR_SIZE)"
      using pl by (simp add: encrypt_char_frame)
    show "feedback ?c1 ! 0 = 0" "feedback ?c1 ! Suc 0 = 1" by (rule fb1)+
    show "(0x41 :: unicode_t) < 65536" by simp
  qed
  moreover have "fst (encrypt_chars ?c0 [0x10000, 0x41]) ! 1 = fst (encrypt_char ?c1 0x41)"
    by (simp add: case_prod_beta)
  ultimately show ?thesis by (simp add: le_FFFF_iff)
qed

text \<open>
  Claim C3, amended.  In the encrypt pipeline of \<open>problema_encrypt\<close> on a reachable,
  initialized context, the code point emitted at position \<open>i\<close> is at most \<open>0xFFFF\<close>
  whenever the input code points at all positions up to and including \<open>i\<close> are at most
  \<open>0xFFFF\<close> (code points of \<open>0x10000\<close> or more may follow later in the stream).
\<close>

theorem bmp_prefix_stays_bmp:
  assumes "reachable ctx" "initialized ctx" "i < length cs" "\<forall>j\<le>i. cs ! j \<le> 0xFFFF"
  shows "fst (encrypt_chars (encrypt_entry ctx) cs) ! i \<le> 0xFFFF"
proof -
  have "fst (encrypt_chars (encrypt_entry ctx) cs) ! i < 65536"
  proof (rule encrypt_chars_bmp)
    show "initialized (encrypt_entry ctx)" using assms(2) by (simp add: encrypt_entry_frame)
    show "length (feedback (encrypt_entry ctx)) = PROBLEMA_BLOCK_SIZE"
      by (simp add: encrypt_entry_frame)
    show "mset (plugboard (encrypt_entry ctx)) = mset (identity_table PROBLEMA_ROTOR_SIZE)"
      using reachable_plugboard [OF assms(1)] by (simp add: encrypt_entry_frame)
    show "feedback (encrypt_entry ctx) ! 0 = 0" "feedback (encrypt_entry ctx) ! Suc 0 = 0"
      by (simp_all add: encrypt_entry_frame PROBLEMA_BLOCK_SIZE_def)
    show "i < length cs" by (rule assms(3))
    show "cs ! j < 65536" if "j \<le> i" for j
      using assms(4) that by (simp add: le_FFFF_iff)
  qed
  then show ?thesis by (simp add: le_FFFF_iff)
qed

theorem bmp_prefix_stays_bmp_witness:
  "reachable (init_context zero_context (replicate 32 0))
   \<and> initialized (init_context zero_context (replicate 32 0))
   \<and> fst (encrypt_chars (encrypt_entry (init_context zero_context (replicate 32 0)))
            [0x41, 0xC548, 0x1F600, 0x42]) ! 1 \<le> 0xFFFF"
proof -
  let ?ctx = "init_context zero_context (replicate 32 0)"
  have re: "reachable ?ctx"
    by (rule reach_init [OF zero_context_alloc length_key0])
  have ini: "initialized ?ctx" by (simp add: init_context_frame)
  have i: "(1::nat) < length [0x41, 0xC548, 0x1F600, 0x42 :: unicode_t]" by simp
  have b: "\<forall>j\<le>1. [0x41, 0xC548, 0x1F600, 0x42 :: unicode_t] ! j \<le> 0xFFFF"
    by (simp add: le_Suc_eq)
  show ?thesis
    using bmp_prefix_stays_bmp [OF re ini i b] re ini by blast
qed

section \<open>Round trip\<close>

text \<open>
  Claim C2 states that \<open>problema_decrypt_char\<close>, on a context freshly initialized from
  the key, returns the code point \<open>x \<le> 0xFFFF\<close> from the output of
  \<open>problema_encrypt_char\<close> on \<open>x\<close> (on another such context).  The code does not do
  so: with the key \<open>02 01 01 \<dots> 01\<close> the code point \<open>U+003D\<close> is encrypted to
  \<open>U+003E\<close>, and \<open>U+003E\<close> is decrypted to \<open>U+0037\<close>.  Encryption applies the forward
  rotors at the positions before the rotation and the inverse rotors at the positions
  after it; decryption applies the inverse rotors before and the forward rotors after,
  which is not the inverse map when a rotor's table does not commute with its shift.
\<close>

theorem char_round_trip_fails:
  "problema_init (Some zero_context) (Some failing_key)
     = Inr (init_context zero_context failing_key)
   \<and> fst (problema_encrypt_char (Some (init_context zero_context failing_key)) 0x3D) = 0x3E
   \<and> fst (problema_decrypt_char (Some (init_context zero_context failing_key)) 0x3E) = 0x37"
proof -
  let ?K = "init_context zero_context failing_key"
  have i: "initialized ?K" "feedback ?K = replicate 16 0"
    by (simp_all add: init_context_frame PROBLEMA_BLOCK_SIZE_def)
  have "fst (encrypt_char ?K 0x3D) = 0x3E" by (rule failing_encrypt_char [OF i]) simp_all
  moreover have "fst (decrypt_char ?K 0x3E) = 0x37" by (rule failing_decrypt_char [OF i]) simp_all
  ultimately show ?thesis
    by (simp add: problema_init_def problema_encrypt_char_def problema_decrypt_char_def
        case_prod_beta)
qed

text \<open>
  Claim C1 states the same round trip for \<open>problema_encrypt\<close> and \<open>problema_decrypt\<close> on
  UTF-8 strings.  It fails on the same key for the one-byte string \<open>"="\<close>: it is
  encrypted to \<open>">"\<close>, which is decrypted to \<open>"7"\<close>, both calls returning success.
\<close>

theorem string_round_trip_fails:
  "problema_init (Some zero_context) (Some failing_key)
     = Inr (init_context zero_context failing_key)
   \<and> fst (problema_encrypt (Some (init_context zero_context failing_key)) (Some [0x3D]) 4)
       = Inr [0x3E]
   \<and> fst (problema_decrypt (Some (init_context zero_context failing_key)) (Some [0x3E]) 4)
       = Inr [0x37]"
proof -
  let ?K = "init_context zero_context failing_key"
  have i: "initialized ?K" by (simp add: init_context_frame)
  have e: "fst (encrypt_char (encrypt_entry ?K) 0x3D) = 0x3E"
    by (rule failing_encrypt_char)
      (simp_all add: encrypt_entry_frame init_context_frame PROBLEMA_BLOCK_SIZE_def)
  have d: "fst (decrypt_char (decrypt_entry ?K) 0x3E) = 0x37"
    by (rule failing_decrypt_char)
      (simp_all add: decrypt_entry_frame init_context_frame PROBLEMA_BLOCK_SIZE_def)
  have "fst (problema_encrypt (Some ?K) (Some [0x3D]) 4) = Inr [0x3E]"
    using i e
    by (simp add: problema_encrypt_def Let_def utf8_to_unicode_ascii unicode_to_utf8_ascii
        case_prod_beta)
  moreover have "fst (problema_decrypt (Some ?K) (Some [0x3E]) 4) = Inr [0x37]"
    using i d
    by (simp add: problema_decrypt_def Let_def utf8_to_unicode_ascii unicode_to_utf8_ascii
        case_prod_beta)
  ultimately show ?thesis by (simp add: problema_init_def)
qed

section \<open>The UTF-8 codec round trip\<close>

subsection \<open>Bytes of a given shape\<close>

lemma word_neq_by_bit: "bit a n \<noteq> bit b n \<Longrightarrow> a \<noteq> b"
  by auto

lemma lead2_shape:
  fixes x :: byte_t
  shows "(0xC0 OR take_bit 5 x) AND 0x80 \<noteq> 0" "(0xC0 OR take_bit 5 x) AND 0xE0 = 0xC0"
    "(0xC0 OR take_bit 5 x) AND 0x1F = take_bit 5 x"
proof -
  show "(0xC0 OR take_bit 5 x) AND 0x80 \<noteq> 0"
    by (rule word_neq_by_bit [of _ 7]) (simp add: bit_simps)
  show "(0xC0 OR take_bit 5 x) AND 0xE0 = 0xC0" "(0xC0 OR take_bit 5 x) AND 0x1F = take_bit 5 x"
    by (rule bit_word_eqI; auto simp: bit_simps dest!: lt8_cases)+
qed

lemma lead3_shape:
  fixes x :: byte_t
  shows "(0xE0 OR take_bit 4 x) AND 0x80 \<noteq> 0" "(0xE0 OR take_bit 4 x) AND 0xE0 \<noteq> 0xC0"
    "(0xE0 OR take_bit 4 x) AND 0xF0 = 0xE0" "(0xE0 OR take_bit 4 x) AND 0x0F = take_bit 4 x"
proof -
  show "(0xE0 OR take_bit 4 x) AND 0x80 \<noteq> 0"
    by (rule word_neq_by_bit [of _ 7]) (simp add: bit_simps)
  show "(0xE0 OR take_bit 4 x) AND 0xE0 \<noteq> 0xC0"
    by (rule word_neq_by_bit [of _ 5]) (simp add: bit_simps)
  show "(0xE0 OR take_bit 4 x) AND 0xF0 = 0xE0" "(0xE0 OR take_bit 4 x) AND 0x0F = take_bit 4 x"
    by (rule bit_word_eqI; auto simp: bit_simps dest!: lt8_cases)+
qed

lemma lead4_shape:
  fixes x :: byte_t
  shows "(0xF0 OR take_bit 3 x) AND 0x80 \<noteq> 0" "(0xF0 OR take_bit 3 x) AND 0xE0 \<noteq> 0xC0"
    "(0xF0 OR take_bit 3 x) AND 0xF0 \<noteq> 0xE0" "(0xF0 OR take_bit 3 x) AND 0xF8 = 0xF0"
    "(0xF0 OR take_bit 3 x) AND 0x07 = take_bit 3 x"
proof -
  show "(0xF0 OR take_bit 3 x) AND 0x80 \<noteq> 0"
    by (rule word_neq_by_bit [of _ 7]) (simp add: bit_simps)
  show "(0xF0 OR take_bit 3 x) AND 0xE0 \<noteq> 0xC0"
    by (rule word_neq_by_bit [of _ 5]) (simp add: bit_simps)
  show "(0xF0 OR take_bit 3 x) AND 0xF0 \<noteq> 0xE0"
    by (rule word_neq_by_bit [of _ 4]) (simp add: bit_simps)
  show "(0xF0 OR take_bit 3 x) AND 0xF8 = 0xF0" "(0xF0 OR take_bit 3 x) AND 0x07 = take_bit 3 x"
    by (rule bit_word_eqI; auto simp: bit_simps dest!: lt8_cases)+
qed

lemma cont_shape:
  fixes x :: byte_t
  shows "(0x80 OR take_bit 6 x) AND 0xC0 = 0x80" "(0x80 OR take_bit 6 x) AND 0x3F = take_bit 6 x"
  by (rule bit_word_eqI; auto simp: bit_simps dest!: lt8_cases)+

subsection \<open>Decoding a sequence of a given shape\<close>

lemma decode_2:
  fixes x0 x1 :: byte_t
  shows "decode_sequence ((0xC0 OR take_bit 5 x0) # (0x80 OR take_bit 6 x1) # rest)
           = Some (push_bit 6 (ucast (take_bit 5 x0)) OR ucast (take_bit 6 x1), rest)"
  by (simp add: lead2_shape cont_shape)

lemma decode_3:
  fixes x0 x1 x2 :: byte_t
  shows "decode_sequence ((0xE0 OR take_bit 4 x0) # (0x80 OR take_bit 6 x1)
             # (0x80 OR take_bit 6 x2) # rest)
           = Some (push_bit 12 (ucast (take_bit 4 x0)) OR push_bit 6 (ucast (take_bit 6 x1))
                     OR ucast (take_bit 6 x2), rest)"
  by (simp add: lead3_shape cont_shape)

lemma decode_4:
  fixes x0 x1 x2 x3 :: byte_t
  shows "decode_sequence ((0xF0 OR take_bit 3 x0) # (0x80 OR take_bit 6 x1)
             # (0x80 OR take_bit 6 x2) # (0x80 OR take_bit 6 x3) # rest)
           = Some (push_bit 18 (ucast (take_bit 3 x0)) OR push_bit 12 (ucast (take_bit 6 x1))
                     OR push_bit 6 (ucast (take_bit 6 x2)) OR ucast (take_bit 6 x3), rest)"
  by (simp add: lead4_shape cont_shape)


subsection \<open>Comparisons as bit tests\<close>

lemma le_7F_iff: "(c :: unicode_t) \<le> 0x7F \<longleftrightarrow> drop_bit 7 c = 0"
  by (simp add: drop_bit_eq_0_unat word_le_nat_alt) arith

lemma le_7FF_iff: "(c :: unicode_t) \<le> 0x7FF \<longleftrightarrow> drop_bit 11 c = 0"
  by (simp add: drop_bit_eq_0_unat word_le_nat_alt) arith

lemma le_FFFF_drop_iff: "(c :: unicode_t) \<le> 0xFFFF \<longleftrightarrow> drop_bit 16 c = 0"
  by (simp add: drop_bit_eq_0_unat word_le_nat_alt) arith

lemma le_10FFFF_if:
  fixes c :: unicode_t
  assumes "drop_bit 20 c = 0 \<or> drop_bit 16 c = 0x10"
  shows "c \<le> 0x10FFFF"
proof -
  have "unat (drop_bit 16 c) = unat c div 2 ^ 16"
    by (subst unat_drop_bit_eq) (simp add: drop_bit_eq_div)
  then have "drop_bit 16 c = 0x10 \<Longrightarrow> unat c div 65536 = 16"
    by simp
  moreover have "drop_bit 20 c = 0 \<Longrightarrow> unat c < 2 ^ 20"
    by (simp add: drop_bit_eq_0_unat)
  ultimately show ?thesis
    using assms by (auto simp: word_le_nat_alt)
qed

lemma le_10FFFF_drop: "(c :: unicode_t) \<le> 0x10FFFF \<Longrightarrow> drop_bit 21 c = 0"
  by (simp add: drop_bit_eq_0_unat word_le_nat_alt)

lemma bit_drop_neq_0:
  fixes c :: "'a::len word"
  assumes "bit c n" "k \<le> n"
  shows "drop_bit k c \<noteq> 0"
proof
  assume z: "drop_bit k c = 0"
  have "bit (drop_bit k c) (n - k)" using assms by (simp add: bit_drop_bit_eq)
  then show False by (simp add: z)
qed

subsection \<open>Encoding a code point of a given shape\<close>

lemma encode_2:
  fixes x0 x1 :: byte_t
  defines "c \<equiv> push_bit 6 (ucast (take_bit 5 x0)) OR ucast (take_bit 6 x1) :: unicode_t"
  assumes "\<not> c \<le> 0x7F"
  shows "encode_code_point c = Some [0xC0 OR take_bit 5 x0, 0x80 OR take_bit 6 x1]"
proof -
  have 1: "c \<le> 0x7FF"
    unfolding le_7FF_iff c_def
    by (rule bit_word_eqI) (auto simp: bit_simps dest!: lt32_cases lt8_cases dest: bit_imp_le_length)
  have 2: "ucast (0xC0 OR drop_bit 6 c) = (0xC0 OR take_bit 5 x0 :: byte_t)"
    unfolding c_def by (rule bit_word_eqI) (auto simp: bit_simps dest!: lt8_cases)
  have 3: "ucast (0x80 OR (c AND 0x3F)) = (0x80 OR take_bit 6 x1 :: byte_t)"
    unfolding c_def by (rule bit_word_eqI) (auto simp: bit_simps dest!: lt8_cases)
  show ?thesis using assms(2) 1 2 3 by (simp add: encode_code_point_def)
qed

lemma encode_3:
  fixes x0 x1 x2 :: byte_t
  defines "c \<equiv> push_bit 12 (ucast (take_bit 4 x0)) OR push_bit 6 (ucast (take_bit 6 x1))
                 OR ucast (take_bit 6 x2) :: unicode_t"
  assumes "\<not> c \<le> 0x7FF"
  shows "encode_code_point c
           = Some [0xE0 OR take_bit 4 x0, 0x80 OR take_bit 6 x1, 0x80 OR take_bit 6 x2]"
proof -
  have 0: "\<not> c \<le> 0x7F" using assms(2) by (simp add: word_le_nat_alt)
  have 1: "c \<le> 0xFFFF"
    unfolding le_FFFF_drop_iff c_def
    by (rule bit_word_eqI) (auto simp: bit_simps dest!: lt32_cases lt8_cases dest: bit_imp_le_length)
  have 2: "ucast (0xE0 OR drop_bit 12 c) = (0xE0 OR take_bit 4 x0 :: byte_t)"
    unfolding c_def by (rule bit_word_eqI) (auto simp: bit_simps dest!: lt8_cases)
  have 3: "ucast (0x80 OR (drop_bit 6 c AND 0x3F)) = (0x80 OR take_bit 6 x1 :: byte_t)"
    unfolding c_def by (rule bit_word_eqI) (auto simp: bit_simps dest!: lt8_cases)
  have 4: "ucast (0x80 OR (c AND 0x3F)) = (0x80 OR take_bit 6 x2 :: byte_t)"
    unfolding c_def by (rule bit_word_eqI) (auto simp: bit_simps dest!: lt8_cases)
  show ?thesis using assms(2) 0 1 2 3 4 by (simp add: encode_code_point_def)
qed

lemma encode_4:
  fixes x0 x1 x2 x3 :: byte_t
  defines "c \<equiv> push_bit 18 (ucast (take_bit 3 x0)) OR push_bit 12 (ucast (take_bit 6 x1))
                 OR push_bit 6 (ucast (take_bit 6 x2)) OR ucast (take_bit 6 x3) :: unicode_t"
  assumes "\<not> c \<le> 0xFFFF" "c \<le> 0x10FFFF"
  shows "encode_code_point c
           = Some [0xF0 OR take_bit 3 x0, 0x80 OR take_bit 6 x1, 0x80 OR take_bit 6 x2,
                   0x80 OR take_bit 6 x3]"
proof -
  have 0: "\<not> c \<le> 0x7F" "\<not> c \<le> 0x7FF" using assms(2) by (simp_all add: word_le_nat_alt)
  have 2: "ucast (0xF0 OR drop_bit 18 c) = (0xF0 OR take_bit 3 x0 :: byte_t)"
    unfolding c_def by (rule bit_word_eqI) (auto simp: bit_simps dest!: lt8_cases)
  have 3: "ucast (0x80 OR (drop_bit 12 c AND 0x3F)) = (0x80 OR take_bit 6 x1 :: byte_t)"
    unfolding c_def by (rule bit_word_eqI) (auto simp: bit_simps dest!: lt8_cases)
  have 4: "ucast (0x80 OR (drop_bit 6 c AND 0x3F)) = (0x80 OR take_bit 6 x2 :: byte_t)"
    unfolding c_def by (rule bit_word_eqI) (auto simp: bit_simps dest!: lt8_cases)
  have 5: "ucast (0x80 OR (c AND 0x3F)) = (0x80 OR take_bit 6 x3 :: byte_t)"
    unfolding c_def by (rule bit_word_eqI) (auto simp: bit_simps dest!: lt8_cases)
  show ?thesis using assms(2,3) 0 2 3 4 5 by (simp add: encode_code_point_def)
qed


subsection \<open>Encoding, then decoding, one code point\<close>

lemma take_bit_self_if_drop: "drop_bit n (c :: 'a::len word) = 0 \<Longrightarrow> c = take_bit n c"
  using take_bit_eq_self_iff_drop_bit_eq_0 [of n c] by simp

lemma shape_1:
  fixes c :: unicode_t
  assumes "c \<le> 0x7F"
  shows "(ucast c :: byte_t) AND 0x80 = 0" "ucast (ucast c :: byte_t) = c"
proof -
  have "drop_bit 7 c = 0" using assms by (simp add: le_7F_iff)
  then have "c = take_bit 7 c" by (rule take_bit_self_if_drop)
  then obtain c' where c: "c = take_bit 7 c'" ..
  show "(ucast c :: byte_t) AND 0x80 = 0"
    unfolding c by (rule bit_word_eqI) (auto simp: bit_simps dest!: lt8_cases)
  show "ucast (ucast c :: byte_t) = c"
    unfolding c
    by (rule bit_word_eqI) (auto simp: bit_simps)
qed

lemma shape_2:
  fixes c :: unicode_t
  assumes "c \<le> 0x7FF"
  shows "c = push_bit 6 (ucast (take_bit 5 (ucast (drop_bit 6 c) :: byte_t)))
               OR ucast (take_bit 6 (ucast c :: byte_t))"
proof -
  have "drop_bit 11 c = 0" using assms by (simp add: le_7FF_iff)
  then have "c = take_bit 11 c" by (rule take_bit_self_if_drop)
  then obtain c' where c: "c = take_bit 11 c'" ..
  show ?thesis
    unfolding c
    by (rule bit_word_eqI) (auto simp: bit_simps)
qed

lemma shape_3:
  fixes c :: unicode_t
  assumes "c \<le> 0xFFFF"
  shows "c = push_bit 12 (ucast (take_bit 4 (ucast (drop_bit 12 c) :: byte_t)))
               OR push_bit 6 (ucast (take_bit 6 (ucast (drop_bit 6 c) :: byte_t)))
               OR ucast (take_bit 6 (ucast c :: byte_t))"
proof -
  have "drop_bit 16 c = 0" using assms by (simp add: le_FFFF_drop_iff)
  then have "c = take_bit 16 c" by (rule take_bit_self_if_drop)
  then obtain c' where c: "c = take_bit 16 c'" ..
  show ?thesis
    unfolding c
    by (rule bit_word_eqI) (auto simp: bit_simps)
qed

lemma shape_4:
  fixes c :: unicode_t
  assumes "c \<le> 0x10FFFF"
  shows "c = push_bit 18 (ucast (take_bit 3 (ucast (drop_bit 18 c) :: byte_t)))
               OR push_bit 12 (ucast (take_bit 6 (ucast (drop_bit 12 c) :: byte_t)))
               OR push_bit 6 (ucast (take_bit 6 (ucast (drop_bit 6 c) :: byte_t)))
               OR ucast (take_bit 6 (ucast c :: byte_t))"
proof -
  have "c = take_bit 21 c" by (rule take_bit_self_if_drop, rule le_10FFFF_drop, rule assms)
  then obtain c' where c: "c = take_bit 21 c'" ..
  show ?thesis
    unfolding c
    by (rule bit_word_eqI) (auto simp: bit_simps)
qed

lemma code_point_roundtrip:
  assumes "c \<le> 0x10FFFF"
  shows "\<exists>s. encode_code_point c = Some s \<and> s \<noteq> [] \<and> length s \<le> 4
             \<and> (\<forall>rest. decode_sequence (s @ rest) = Some (c, rest))"
proof -
  consider "c \<le> 0x7F" | "\<not> c \<le> 0x7F" "c \<le> 0x7FF" | "\<not> c \<le> 0x7FF" "c \<le> 0xFFFF"
    | "\<not> c \<le> 0xFFFF" by blast
  then show ?thesis
  proof cases
    case 1
    then show ?thesis by (simp add: encode_code_point_def shape_1)
  next
    case 2
    obtain x0 x1 :: byte_t
      where c: "c = push_bit 6 (ucast (take_bit 5 x0)) OR ucast (take_bit 6 x1)"
      using shape_2 [OF 2(2)] by blast
    have "encode_code_point c = Some [0xC0 OR take_bit 5 x0, 0x80 OR take_bit 6 x1]"
      using 2(1) unfolding c by (rule encode_2)
    moreover have "decode_sequence ([0xC0 OR take_bit 5 x0, 0x80 OR take_bit 6 x1] @ rest)
        = Some (c, rest)" for rest
      unfolding c using decode_2 [of x0 x1 rest] by simp
    ultimately show ?thesis by auto
  next
    case 3
    obtain x0 x1 x2 :: byte_t
      where c: "c = push_bit 12 (ucast (take_bit 4 x0)) OR push_bit 6 (ucast (take_bit 6 x1))
                      OR ucast (take_bit 6 x2)"
      using shape_3 [OF 3(2)] by blast
    have "encode_code_point c
        = Some [0xE0 OR take_bit 4 x0, 0x80 OR take_bit 6 x1, 0x80 OR take_bit 6 x2]"
      using 3(1) unfolding c by (rule encode_3)
    moreover have "decode_sequence
        ([0xE0 OR take_bit 4 x0, 0x80 OR take_bit 6 x1, 0x80 OR take_bit 6 x2] @ rest)
        = Some (c, rest)" for rest
      unfolding c using decode_3 [of x0 x1 x2 rest] by simp
    ultimately show ?thesis by auto
  next
    case 4
    obtain x0 x1 x2 x3 :: byte_t
      where c: "c = push_bit 18 (ucast (take_bit 3 x0)) OR push_bit 12 (ucast (take_bit 6 x1))
                      OR push_bit 6 (ucast (take_bit 6 x2)) OR ucast (take_bit 6 x3)"
      using shape_4 [OF assms] by blast
    have "encode_code_point c
        = Some [0xF0 OR take_bit 3 x0, 0x80 OR take_bit 6 x1, 0x80 OR take_bit 6 x2,
                0x80 OR take_bit 6 x3]"
      using 4 assms unfolding c by (rule encode_4)
    moreover have "decode_sequence
        ([0xF0 OR take_bit 3 x0, 0x80 OR take_bit 6 x1, 0x80 OR take_bit 6 x2,
          0x80 OR take_bit 6 x3] @ rest)
        = Some (c, rest)" for rest
      unfolding c using decode_4 [of x0 x1 x2 x3 rest] by simp
    ultimately show ?thesis by auto
  qed
qed


subsection \<open>Decoding, then encoding, one well-formed sequence\<close>

lemma byte_range:
  fixes b :: byte_t
  assumes "in_range (of_nat lo) (of_nat hi) b" "lo \<le> hi" "hi < 256"
    "list_all (\<lambda>n. P (of_nat n :: byte_t)) [lo..<Suc hi]"
  shows "P b"
proof -
  have "lo \<le> unat b" "unat b \<le> hi"
    using assms(1,2,3) by (simp_all add: in_range_def word_le_nat_alt unat_of_nat)
  then have "unat b \<in> {lo..<Suc hi}" by simp
  moreover have "\<forall>n\<in>{lo..<Suc hi}. P (of_nat n)"
    using assms(4) by (simp only: list_all_iff set_upt)
  ultimately have "P (of_nat (unat b))" by blast
  then show ?thesis by simp
qed

lemma range_cont:
  assumes "in_range 0x80 0xBF b"
  shows "0x80 OR take_bit 6 b = b"
  by (rule byte_range [where lo = "0x80" and hi = "0xBF"]) (use assms in \<open>simp_all add: upt_rec\<close>)

lemma range_cont_A0:
  assumes "in_range 0xA0 0xBF b"
  shows "0x80 OR take_bit 6 b = b \<and> bit b 5"
  by (rule byte_range [where lo = "0xA0" and hi = "0xBF"]) (use assms in \<open>simp_all add: upt_rec\<close>)

lemma range_cont_9F:
  assumes "in_range 0x80 0x9F b"
  shows "0x80 OR take_bit 6 b = b"
  by (rule byte_range [where lo = "0x80" and hi = "0x9F"]) (use assms in \<open>simp_all add: upt_rec\<close>)

lemma range_cont_90:
  assumes "in_range 0x90 0xBF b"
  shows "0x80 OR take_bit 6 b = b \<and> (bit b 4 \<or> bit b 5)"
  by (rule byte_range [where lo = "0x90" and hi = "0xBF"]) (use assms in \<open>simp_all add: upt_rec\<close>)

lemma range_cont_8F:
  assumes "in_range 0x80 0x8F b"
  shows "0x80 OR take_bit 6 b = b \<and> \<not> bit b 4 \<and> \<not> bit b 5"
  by (rule byte_range [where lo = "0x80" and hi = "0x8F"]) (use assms in \<open>simp_all add: upt_rec\<close>)

lemma range_lead2:
  assumes "in_range 0xC2 0xDF b"
  shows "0xC0 OR take_bit 5 b = b \<and> (bit b 1 \<or> bit b 2 \<or> bit b 3 \<or> bit b 4)"
  by (rule byte_range [where lo = "0xC2" and hi = "0xDF"]) (use assms in \<open>simp_all add: upt_rec\<close>)

lemma range_lead3:
  assumes "in_range 0xE1 0xEF b"
  shows "0xE0 OR take_bit 4 b = b \<and> (bit b 0 \<or> bit b 1 \<or> bit b 2 \<or> bit b 3)"
  by (rule byte_range [where lo = "0xE1" and hi = "0xEF"]) (use assms in \<open>simp_all add: upt_rec\<close>)

lemma range_lead4:
  assumes "in_range 0xF1 0xF3 b"
  shows "0xF0 OR take_bit 3 b = b \<and> (bit b 0 \<or> bit b 1) \<and> \<not> bit b 2"
  by (rule byte_range [where lo = "0xF1" and hi = "0xF3"]) (use assms in \<open>simp_all add: upt_rec\<close>)

lemma above_7F:
  fixes x0 x1 :: byte_t
  assumes "bit x0 1 \<or> bit x0 2 \<or> bit x0 3 \<or> bit x0 4"
  shows "\<not> push_bit 6 (ucast (take_bit 5 x0)) OR ucast (take_bit 6 x1) \<le> (0x7F :: unicode_t)"
proof -
  let ?c = "push_bit 6 (ucast (take_bit 5 x0)) OR ucast (take_bit 6 x1) :: unicode_t"
  have "bit ?c 7 \<or> bit ?c 8 \<or> bit ?c 9 \<or> bit ?c 10"
    using assms by (simp add: bit_simps)
  then have "drop_bit 7 ?c \<noteq> 0" by (elim disjE) (erule bit_drop_neq_0, simp)+
  then show ?thesis by (simp add: le_7F_iff)
qed

lemma above_7FF:
  fixes x0 x1 x2 :: byte_t
  assumes "bit x0 0 \<or> bit x0 1 \<or> bit x0 2 \<or> bit x0 3 \<or> bit x1 5"
  shows "\<not> push_bit 12 (ucast (take_bit 4 x0)) OR push_bit 6 (ucast (take_bit 6 x1))
             OR ucast (take_bit 6 x2) \<le> (0x7FF :: unicode_t)"
proof -
  let ?c = "push_bit 12 (ucast (take_bit 4 x0)) OR push_bit 6 (ucast (take_bit 6 x1))
             OR ucast (take_bit 6 x2) :: unicode_t"
  have "bit ?c 12 \<or> bit ?c 13 \<or> bit ?c 14 \<or> bit ?c 15 \<or> bit ?c 11"
    using assms by (simp add: bit_simps)
  then have "drop_bit 11 ?c \<noteq> 0" by (elim disjE) (erule bit_drop_neq_0, simp)+
  then show ?thesis by (simp add: le_7FF_iff)
qed

lemma above_FFFF:
  fixes x0 x1 x2 x3 :: byte_t
  assumes "bit x0 0 \<or> bit x0 1 \<or> bit x0 2 \<or> bit x1 4 \<or> bit x1 5"
  shows "\<not> push_bit 18 (ucast (take_bit 3 x0)) OR push_bit 12 (ucast (take_bit 6 x1))
             OR push_bit 6 (ucast (take_bit 6 x2)) OR ucast (take_bit 6 x3) \<le> (0xFFFF :: unicode_t)"
proof -
  let ?c = "push_bit 18 (ucast (take_bit 3 x0)) OR push_bit 12 (ucast (take_bit 6 x1))
             OR push_bit 6 (ucast (take_bit 6 x2)) OR ucast (take_bit 6 x3) :: unicode_t"
  have "bit ?c 18 \<or> bit ?c 19 \<or> bit ?c 20 \<or> bit ?c 16 \<or> bit ?c 17"
    using assms by (simp add: bit_simps)
  then have "drop_bit 16 ?c \<noteq> 0" by (elim disjE) (erule bit_drop_neq_0, simp)+
  then show ?thesis by (simp add: le_FFFF_drop_iff)
qed

lemma below_10FFFF:
  fixes x0 x1 x2 x3 :: byte_t
  assumes "\<not> bit x0 2 \<or> (\<not> bit x0 0 \<and> \<not> bit x0 1 \<and> \<not> bit x1 4 \<and> \<not> bit x1 5)"
  shows "push_bit 18 (ucast (take_bit 3 x0)) OR push_bit 12 (ucast (take_bit 6 x1))
             OR push_bit 6 (ucast (take_bit 6 x2)) OR ucast (take_bit 6 x3) \<le> (0x10FFFF :: unicode_t)"
proof -
  let ?c = "push_bit 18 (ucast (take_bit 3 x0)) OR push_bit 12 (ucast (take_bit 6 x1))
             OR push_bit 6 (ucast (take_bit 6 x2)) OR ucast (take_bit 6 x3) :: unicode_t"
  have a: "drop_bit 20 ?c = 0" if "\<not> bit x0 2"
  proof (rule bit_word_eqI)
    fix n :: nat
    have "n + 2 < 3 \<Longrightarrow> n + 2 = 2" by arith
    then show "bit (drop_bit 20 ?c) n = bit (0 :: unicode_t) n"
      using that by (auto simp: bit_simps numeral_2_eq_2)
  qed
  have b: "drop_bit 16 ?c = 2 ^ 4"
    if "bit x0 2" "\<not> bit x0 0 \<and> \<not> bit x0 1 \<and> \<not> bit x1 4 \<and> \<not> bit x1 5"
  proof (rule bit_word_eqI)
    fix n :: nat
    have p: "bit (16 :: int) n \<longleftrightarrow> n = 4"
      using bit_exp_iff [where ?'a = int, of 4 n] by auto
    consider "n = 4" | "n = 2" | "n = 3" | "n = 0" | "n = 1" | "n > 4" by arith
    then show "bit (drop_bit 16 ?c) n = bit (2 ^ 4 :: unicode_t) n"
      using that by cases (auto simp: bit_simps p)
  qed
  have "drop_bit 20 ?c = 0 \<or> drop_bit 16 ?c = 0x10"
    using assms a b by (cases "bit x0 2") auto
  then show ?thesis by (rule le_10FFFF_if)
qed


lemma in_range_mono:
  "in_range lo hi b \<Longrightarrow> lo' \<le> lo \<Longrightarrow> hi \<le> hi' \<Longrightarrow> in_range lo' hi' b"
  by (auto simp: in_range_def)

lemma ascii_byte:
  fixes b :: byte_t
  assumes "b \<le> 0x7F"
  shows "b AND 0x80 = 0" "(ucast b :: unicode_t) \<le> 0x7F" "ucast (ucast b :: unicode_t) = b"
proof -
  have "drop_bit 7 b = 0" using assms by (simp add: drop_bit_eq_0_unat word_le_nat_alt)
  then have "b = take_bit 7 b" by (rule take_bit_self_if_drop)
  then obtain b' where b: "b = take_bit 7 b'" ..
  show "b AND 0x80 = 0"
    unfolding b by (rule bit_word_eqI) (auto simp: bit_simps dest!: lt8_cases)
  show "(ucast b :: unicode_t) \<le> 0x7F"
    unfolding le_7F_iff b by (rule bit_word_eqI) (auto simp: bit_simps)
  show "ucast (ucast b :: unicode_t) = b"
    by (rule bit_word_eqI) (auto simp: bit_simps)
qed

lemma lead3_bytes:
  assumes "b0 = 0xE0 \<and> in_range 0xA0 0xBF b1
       \<or> in_range 0xE1 0xEC b0 \<and> in_range 0x80 0xBF b1
       \<or> b0 = 0xED \<and> in_range 0x80 0x9F b1
       \<or> in_range 0xEE 0xEF b0 \<and> in_range 0x80 0xBF b1"
  shows "0xE0 OR take_bit 4 b0 = b0" "0x80 OR take_bit 6 b1 = b1"
    "bit b0 0 \<or> bit b0 1 \<or> bit b0 2 \<or> bit b0 3 \<or> bit b1 5"
proof -
  consider "b0 = 0xE0" "in_range 0xA0 0xBF b1"
    | "in_range 0xE1 0xEF b0" "in_range 0x80 0xBF b1"
  proof -
    have a: "in_range 0xE1 0xEC b0 \<Longrightarrow> in_range 0xE1 0xEF b0"
      by (erule in_range_mono) simp_all
    have b: "in_range 0xEE 0xEF b0 \<Longrightarrow> in_range 0xE1 0xEF b0"
      by (erule in_range_mono) simp_all
    have c: "in_range 0x80 0x9F b1 \<Longrightarrow> in_range 0x80 0xBF b1"
      by (erule in_range_mono) simp_all
    have d: "b0 = 0xED \<Longrightarrow> in_range 0xE1 0xEF b0"
      by (simp add: in_range_def)
    assume "b0 = 0xE0 \<Longrightarrow> in_range 0xA0 0xBF b1 \<Longrightarrow> thesis"
      and "in_range 0xE1 0xEF b0 \<Longrightarrow> in_range 0x80 0xBF b1 \<Longrightarrow> thesis"
    then show thesis using assms a b c d by blast
  qed
  then have "0xE0 OR take_bit 4 b0 = b0 \<and> 0x80 OR take_bit 6 b1 = b1
      \<and> (bit b0 0 \<or> bit b0 1 \<or> bit b0 2 \<or> bit b0 3 \<or> bit b1 5)"
  proof cases
    case 1
    then show ?thesis using range_cont_A0 [of b1] by simp
  next
    case 2
    then show ?thesis using range_lead3 [of b0] range_cont [of b1] by blast
  qed
  then show "0xE0 OR take_bit 4 b0 = b0" "0x80 OR take_bit 6 b1 = b1"
    "bit b0 0 \<or> bit b0 1 \<or> bit b0 2 \<or> bit b0 3 \<or> bit b1 5"
    by blast+
qed

lemma lead4_bytes:
  assumes "b0 = 0xF0 \<and> in_range 0x90 0xBF b1
       \<or> in_range 0xF1 0xF3 b0 \<and> in_range 0x80 0xBF b1
       \<or> b0 = 0xF4 \<and> in_range 0x80 0x8F b1"
  shows "0xF0 OR take_bit 3 b0 = b0" "0x80 OR take_bit 6 b1 = b1"
    "bit b0 0 \<or> bit b0 1 \<or> bit b0 2 \<or> bit b1 4 \<or> bit b1 5"
    "\<not> bit b0 2 \<or> (\<not> bit b0 0 \<and> \<not> bit b0 1 \<and> \<not> bit b1 4 \<and> \<not> bit b1 5)"
proof -
  consider "b0 = 0xF0" "in_range 0x90 0xBF b1"
    | "in_range 0xF1 0xF3 b0" "in_range 0x80 0xBF b1"
    | "b0 = 0xF4" "in_range 0x80 0x8F b1"
    using assms by blast
  then have "0xF0 OR take_bit 3 b0 = b0 \<and> 0x80 OR take_bit 6 b1 = b1
      \<and> (bit b0 0 \<or> bit b0 1 \<or> bit b0 2 \<or> bit b1 4 \<or> bit b1 5)
      \<and> (\<not> bit b0 2 \<or> (\<not> bit b0 0 \<and> \<not> bit b0 1 \<and> \<not> bit b1 4 \<and> \<not> bit b1 5))"
  proof cases
    case 1
    then show ?thesis using range_cont_90 [of b1] by simp
  next
    case 2
    then show ?thesis using range_lead4 [of b0] range_cont [of b1] by blast
  next
    case 3
    then show ?thesis using range_cont_8F [of b1] by simp
  qed
  then show "0xF0 OR take_bit 3 b0 = b0" "0x80 OR take_bit 6 b1 = b1"
    "bit b0 0 \<or> bit b0 1 \<or> bit b0 2 \<or> bit b1 4 \<or> bit b1 5"
    "\<not> bit b0 2 \<or> (\<not> bit b0 0 \<and> \<not> bit b0 1 \<and> \<not> bit b1 4 \<and> \<not> bit b1 5)"
    by blast+
qed

lemma sequence_roundtrip:
  assumes "utf8_sequence s"
  shows "\<exists>c. encode_code_point c = Some s \<and> (\<forall>rest. decode_sequence (s @ rest) = Some (c, rest))"
  using assms
proof (cases s rule: utf8_sequence.cases)
  case (1 b0)
  then have b: "b0 \<le> 0x7F" using assms by simp
  note a = ascii_byte [OF b]
  have "encode_code_point (ucast b0) = Some [b0]"
    using a(2,3) by (simp add: encode_code_point_def)
  moreover have "decode_sequence ([b0] @ rest) = Some (ucast b0, rest)" for rest
    using a(1) by simp
  ultimately show ?thesis using 1 by blast
next
  case (2 b0 b1)
  then have r: "in_range 0xC2 0xDF b0" "in_range 0x80 0xBF b1" using assms by simp_all
  note h0 = range_lead2 [OF r(1)] and h1 = range_cont [OF r(2)]
  let ?c = "push_bit 6 (ucast (take_bit 5 b0)) OR ucast (take_bit 6 b1) :: unicode_t"
  have "encode_code_point ?c = Some [0xC0 OR take_bit 5 b0, 0x80 OR take_bit 6 b1]"
    by (rule encode_2, rule above_7F) (use h0 in blast)
  then have "encode_code_point ?c = Some [b0, b1]"
    using h0 h1 by simp
  moreover have "decode_sequence ([b0, b1] @ rest) = Some (?c, rest)" for rest
    using decode_2 [of b0 b1 rest] h0 h1 by simp
  ultimately show ?thesis using 2 by blast
next
  case (3 b0 b1 b2)
  then have r: "b0 = 0xE0 \<and> in_range 0xA0 0xBF b1
       \<or> in_range 0xE1 0xEC b0 \<and> in_range 0x80 0xBF b1
       \<or> b0 = 0xED \<and> in_range 0x80 0x9F b1
       \<or> in_range 0xEE 0xEF b0 \<and> in_range 0x80 0xBF b1" "in_range 0x80 0xBF b2"
    using assms by simp_all
  note h = lead3_bytes [OF r(1)] and h2 = range_cont [OF r(2)]
  let ?c = "push_bit 12 (ucast (take_bit 4 b0)) OR push_bit 6 (ucast (take_bit 6 b1))
              OR ucast (take_bit 6 b2) :: unicode_t"
  have "encode_code_point ?c
      = Some [0xE0 OR take_bit 4 b0, 0x80 OR take_bit 6 b1, 0x80 OR take_bit 6 b2]"
    by (rule encode_3, rule above_7FF, rule h(3))
  then have "encode_code_point ?c = Some [b0, b1, b2]"
    using h(1,2) h2 by simp
  moreover have "decode_sequence ([b0, b1, b2] @ rest) = Some (?c, rest)" for rest
    using decode_3 [of b0 b1 b2 rest] h(1,2) h2 by simp
  ultimately show ?thesis using 3 by blast
next
  case (4 b0 b1 b2 b3)
  then have r: "b0 = 0xF0 \<and> in_range 0x90 0xBF b1
       \<or> in_range 0xF1 0xF3 b0 \<and> in_range 0x80 0xBF b1
       \<or> b0 = 0xF4 \<and> in_range 0x80 0x8F b1" "in_range 0x80 0xBF b2" "in_range 0x80 0xBF b3"
    using assms by simp_all
  note h = lead4_bytes [OF r(1)] and h2 = range_cont [OF r(2)] and h3 = range_cont [OF r(3)]
  let ?c = "push_bit 18 (ucast (take_bit 3 b0)) OR push_bit 12 (ucast (take_bit 6 b1))
              OR push_bit 6 (ucast (take_bit 6 b2)) OR ucast (take_bit 6 b3) :: unicode_t"
  have "encode_code_point ?c
      = Some [0xF0 OR take_bit 3 b0, 0x80 OR take_bit 6 b1, 0x80 OR take_bit 6 b2,
              0x80 OR take_bit 6 b3]"
    by (rule encode_4, rule above_FFFF, rule h(3), rule below_10FFFF, rule h(4))
  then have "encode_code_point ?c = Some [b0, b1, b2, b3]"
    using h(1,2) h2 h3 by simp
  moreover have "decode_sequence ([b0, b1, b2, b3] @ rest) = Some (?c, rest)" for rest
    using decode_4 [of b0 b1 b2 b3 rest] h(1,2) h2 h3 by simp
  ultimately show ?thesis using 4 by blast
qed (use assms in simp_all)

subsection \<open>The two loops\<close>

lemma valid_utf8_split:
  assumes "valid_utf8 (b0 # bs)"
  obtains q r where "b0 # bs = q @ r" "q \<noteq> []" "utf8_sequence q" "valid_utf8 r"
proof -
  let ?n = "sequence_length b0"
  from assms have n: "0 < ?n" "?n - 1 \<le> length bs"
    and q: "utf8_sequence (b0 # take (?n - 1) bs)" and r: "valid_utf8 (drop (?n - 1) bs)"
    by (simp_all add: Let_def)
  have "b0 # bs = (b0 # take (?n - 1) bs) @ drop (?n - 1) bs" by simp
  then show thesis using q r that by blast
qed

lemma decode_then_encode:
  "valid_utf8 s \<Longrightarrow>
   \<exists>cs. length cs \<le> length s
     \<and> (\<forall>n acc. length acc + length cs \<le> n
           \<longrightarrow> utf8_to_unicode_loop n s acc = Inr ([], acc @ cs))
     \<and> (\<forall>m out. length out + length s \<le> m
           \<longrightarrow> unicode_to_utf8_loop m cs out = Inr (out @ s))"
proof (induction s rule: length_induct)
  case (1 s)
  show ?case
  proof (cases s)
    case Nil
    have "\<forall>n acc. utf8_to_unicode_loop n [] acc = Inr ([], acc @ [])" by simp
    moreover have "\<forall>m out. unicode_to_utf8_loop m [] out = Inr (out @ [])" by simp
    ultimately show ?thesis unfolding Nil by (intro exI [of _ "[]"]) simp
  next
    case (Cons b0 bs)
    with 1(2) obtain q r where s: "s = q @ r" and q: "q \<noteq> []" "utf8_sequence q"
      and r: "valid_utf8 r"
      using valid_utf8_split [of b0 bs] by metis
    from sequence_roundtrip [OF q(2)] obtain c where
      enc: "encode_code_point c = Some q" and dec: "\<And>rest. decode_sequence (q @ rest) = Some (c, rest)"
      by blast
    have "length r < length s" using s q by simp
    with 1(1) r obtain cs where len: "length cs \<le> length r"
      and d: "\<And>n acc. length acc + length cs \<le> n
                \<Longrightarrow> utf8_to_unicode_loop n r acc = Inr ([], acc @ cs)"
      and e: "\<And>m out. length out + length r \<le> m
                \<Longrightarrow> unicode_to_utf8_loop m cs out = Inr (out @ r)"
      by blast
    have "length (c # cs) \<le> length s" using len s q by (cases q) simp_all
    moreover have "utf8_to_unicode_loop n s acc = Inr ([], acc @ c # cs)"
      if "length acc + length (c # cs) \<le> n" for n acc
    proof -
      have "utf8_to_unicode_loop n (q @ r) acc = utf8_to_unicode_loop n r (acc @ [c])"
        using that q dec by (subst utf8_to_unicode_loop.simps) simp
      also have "\<dots> = Inr ([], (acc @ [c]) @ cs)"
        using that by (intro d) simp
      finally show ?thesis by (simp add: s)
    qed
    moreover have "unicode_to_utf8_loop m (c # cs) out = Inr (out @ s)"
      if "length out + length s \<le> m" for m out
    proof -
      have "unicode_to_utf8_loop m (c # cs) out = unicode_to_utf8_loop m cs (out @ q)"
        using that enc s by simp
      also have "\<dots> = Inr ((out @ q) @ r)"
        using that s by (intro e) simp
      finally show ?thesis by (simp add: s)
    qed
    ultimately show ?thesis by blast
  qed
qed

lemma encode_then_decode:
  "\<forall>c\<in>set cs. c \<le> 0x10FFFF \<Longrightarrow>
   \<exists>s. length s \<le> 4 * length cs
     \<and> (\<forall>m out. length out + length s \<le> m
           \<longrightarrow> unicode_to_utf8_loop m cs out = Inr (out @ s))
     \<and> (\<forall>n acc. length acc + length cs \<le> n
           \<longrightarrow> utf8_to_unicode_loop n s acc = Inr ([], acc @ cs))"
proof (induction cs)
  case Nil
  have "\<forall>n acc. utf8_to_unicode_loop n [] acc = Inr ([], acc @ [])" by simp
  moreover have "\<forall>m out. unicode_to_utf8_loop m [] out = Inr (out @ [])" by simp
  ultimately show ?case by (intro exI [of _ "[]"]) simp
next
  case (Cons c cs)
  then have c: "c \<le> 0x10FFFF" and cs: "\<forall>c\<in>set cs. c \<le> 0x10FFFF" by simp_all
  from code_point_roundtrip [OF c] obtain q where
    enc: "encode_code_point c = Some q" and q: "q \<noteq> []" "length q \<le> 4"
    and dec: "\<And>rest. decode_sequence (q @ rest) = Some (c, rest)"
    by blast
  from Cons.IH [OF cs] obtain r where len: "length r \<le> 4 * length cs"
    and e: "\<And>m out. length out + length r \<le> m
              \<Longrightarrow> unicode_to_utf8_loop m cs out = Inr (out @ r)"
    and d: "\<And>n acc. length acc + length cs \<le> n
              \<Longrightarrow> utf8_to_unicode_loop n r acc = Inr ([], acc @ cs)"
    by blast
  have "length (q @ r) \<le> 4 * length (c # cs)" using len q by simp
  moreover have "unicode_to_utf8_loop m (c # cs) out = Inr (out @ q @ r)"
    if "length out + length (q @ r) \<le> m" for m out
  proof -
    have "unicode_to_utf8_loop m (c # cs) out = unicode_to_utf8_loop m cs (out @ q)"
      using that enc by simp
    also have "\<dots> = Inr ((out @ q) @ r)"
      using that by (intro e) simp
    finally show ?thesis by simp
  qed
  moreover have "utf8_to_unicode_loop n (q @ r) acc = Inr ([], acc @ c # cs)"
    if "length acc + length (c # cs) \<le> n" for n acc
  proof -
    have "utf8_to_unicode_loop n (q @ r) acc = utf8_to_unicode_loop n r (acc @ [c])"
      using that q dec by (subst utf8_to_unicode_loop.simps) simp
    also have "\<dots> = Inr ([], (acc @ [c]) @ cs)"
      using that by (intro d) simp
    finally show ?thesis by simp
  qed
  ultimately show ?case by blast
qed

text \<open>Claim C8.  The codec round-trips both ways, every call succeeding when the buffers are
  large enough: a valid UTF-8 byte string \<open>s\<close> decodes to code points \<open>cs\<close>, no more than
  \<open>s\<close> has bytes, in every buffer that holds them, and \<open>cs\<close> encodes to \<open>s\<close> again in every
  buffer of at least \<open>length s\<close> bytes; code points \<open>cs'\<close>, none above \<open>0x10FFFF\<close>, encode to
  bytes \<open>s'\<close>, at most four for each, in every buffer that holds them, and \<open>s'\<close> decodes to
  \<open>cs'\<close> again in every buffer of at least \<open>length cs'\<close> code points.\<close>

theorem utf8_codec_round_trip:
  "(valid_utf8 s \<longrightarrow>
      (\<exists>cs. length cs \<le> length s
         \<and> (\<forall>n. length cs \<le> n \<longrightarrow> utf8_to_unicode s n = Inr cs)
         \<and> (\<forall>m. length s \<le> m \<longrightarrow> unicode_to_utf8 cs m = Inr s)))
   \<and> ((\<forall>c\<in>set cs'. c \<le> 0x10FFFF) \<longrightarrow>
      (\<exists>s'. length s' \<le> 4 * length cs'
         \<and> (\<forall>m. length s' \<le> m \<longrightarrow> unicode_to_utf8 cs' m = Inr s')
         \<and> (\<forall>n. length cs' \<le> n \<longrightarrow> utf8_to_unicode s' n = Inr cs')))"
proof (intro conjI impI)
  assume "valid_utf8 s"
  from decode_then_encode [OF this] obtain cs where len: "length cs \<le> length s"
    and d: "\<And>n acc. length acc + length cs \<le> n
              \<Longrightarrow> utf8_to_unicode_loop n s acc = Inr ([], acc @ cs)"
    and e: "\<And>m out. length out + length s \<le> m
              \<Longrightarrow> unicode_to_utf8_loop m cs out = Inr (out @ s)"
    by blast
  have "utf8_to_unicode s n = Inr cs" if "length cs \<le> n" for n
    using d [of "[]" n] that by (simp add: utf8_to_unicode_def)
  moreover have "unicode_to_utf8 cs m = Inr s" if "length s \<le> m" for m
    using e [of "[]" m] that by (simp add: unicode_to_utf8_def)
  ultimately show "\<exists>cs. length cs \<le> length s
         \<and> (\<forall>n. length cs \<le> n \<longrightarrow> utf8_to_unicode s n = Inr cs)
         \<and> (\<forall>m. length s \<le> m \<longrightarrow> unicode_to_utf8 cs m = Inr s)"
    using len by blast
next
  assume "\<forall>c\<in>set cs'. c \<le> 0x10FFFF"
  from encode_then_decode [OF this] obtain s' where len: "length s' \<le> 4 * length cs'"
    and e: "\<And>m out. length out + length s' \<le> m
              \<Longrightarrow> unicode_to_utf8_loop m cs' out = Inr (out @ s')"
    and d: "\<And>n acc. length acc + length cs' \<le> n
              \<Longrightarrow> utf8_to_unicode_loop n s' acc = Inr ([], acc @ cs')"
    by blast
  have "unicode_to_utf8 cs' m = Inr s'" if "length s' \<le> m" for m
    using e [of "[]" m] that by (simp add: unicode_to_utf8_def)
  moreover have "utf8_to_unicode s' n = Inr cs'" if "length cs' \<le> n" for n
    using d [of "[]" n] that by (simp add: utf8_to_unicode_def)
  ultimately show "\<exists>s'. length s' \<le> 4 * length cs'
         \<and> (\<forall>m. length s' \<le> m \<longrightarrow> unicode_to_utf8 cs' m = Inr s')
         \<and> (\<forall>n. length cs' \<le> n \<longrightarrow> utf8_to_unicode s' n = Inr cs')"
    using len by blast
qed

theorem utf8_codec_round_trip_witness:
  "valid_utf8 [0xED, 0x95, 0x9C] \<and> (0xD55C :: unicode_t) \<le> 0x10FFFF
   \<and> (\<exists>cs. utf8_to_unicode [0xED, 0x95, 0x9C] 3 = Inr cs
          \<and> unicode_to_utf8 cs 3 = Inr [0xED, 0x95, 0x9C])
   \<and> (\<exists>s. unicode_to_utf8 [0xD55C] 4 = Inr s \<and> utf8_to_unicode s 1 = Inr [0xD55C])"
proof -
  have v: "valid_utf8 [0xED, 0x95, 0x9C]"
    by (simp add: sequence_length_def in_range_def)
  have b: "\<forall>c\<in>set [0xD55C :: unicode_t]. c \<le> 0x10FFFF" by simp
  note t = utf8_codec_round_trip [of "[0xED, 0x95, 0x9C]" "[0xD55C]"]
  from t v obtain cs where "length cs \<le> length [0xED, 0x95, 0x9C :: byte_t]"
    and "\<forall>n. length cs \<le> n \<longrightarrow> utf8_to_unicode [0xED, 0x95, 0x9C] n = Inr cs"
    and "\<forall>m. length [0xED, 0x95, 0x9C :: byte_t] \<le> m
           \<longrightarrow> unicode_to_utf8 cs m = Inr [0xED, 0x95, 0x9C]"
    by blast
  then have 1: "\<exists>cs. utf8_to_unicode [0xED, 0x95, 0x9C] 3 = Inr cs
          \<and> unicode_to_utf8 cs 3 = Inr [0xED, 0x95, 0x9C]"
    by (intro exI [of _ cs]) simp
  from t b obtain s where "length s \<le> 4 * length [0xD55C :: unicode_t]"
    and "\<forall>m. length s \<le> m \<longrightarrow> unicode_to_utf8 [0xD55C] m = Inr s"
    and "\<forall>n. length [0xD55C :: unicode_t] \<le> n \<longrightarrow> utf8_to_unicode s n = Inr [0xD55C]"
    by blast
  then have 2: "\<exists>s. unicode_to_utf8 [0xD55C] 4 = Inr s \<and> utf8_to_unicode s 1 = Inr [0xD55C]"
    by (intro exI [of _ s]) simp
  show ?thesis using v 1 2 by simp
qed

end
